theory Spec2Isabelle
  imports Complex_Main "HOL-Library.AList"
begin

section \<open>Core enums of \<^verbatim>\<open>aiplatform/mesh_ide.py\<close>\<close>

datatype NodeType = LOCAL | EDGE | CLOUD | QUANTUM | MODEL

datatype ExecutionContext = LOCAL | EDGE | CLOUD | QUANTUM | HYBRID

datatype AgentRole = GUARDIAN | MONITOR | OPTIMIZER | SECURITY | SYNC | COORDINATOR

datatype SyncState = SYNCED | PENDING | CONFLICT | DIVERGED

text \<open>The \<^verbatim>\<open>.value\<close> of a \<^verbatim>\<open>SyncState\<close> member.\<close>

fun SyncState_value :: "SyncState \<Rightarrow> string" where
  "SyncState_value SYNCED = ''synced''"
| "SyncState_value PENDING = ''pending''"
| "SyncState_value CONFLICT = ''conflict''"
| "SyncState_value DIVERGED = ''diverged''"

text \<open>
  Exceptions the modelled code can raise. Subscripting a dict with an absent key raises
  \<^verbatim>\<open>KeyError(key)\<close>.
\<close>

datatype error = KeyError string

text \<open>
  A \<^verbatim>\<open>datetime\<close> is a point of a linear order; it is modelled as an integer (say,
  microseconds). Every call of \<^verbatim>\<open>datetime.now()\<close> is an input of the model: an
  operation that reads the clock several times takes a function \<open>tick\<close>, and its
  \<open>k\<close>-th reading (counted from 0) is \<open>tick k\<close>.
  A \<^verbatim>\<open>Dict[str, Any]\<close> is an association list of strings; no modelled operation
  reads or writes one.
  The parameter \<open>digest\<close> of the operations below stands for the library expression
  \<^verbatim>\<open>hashlib.sha256(s.encode()).hexdigest()[:16]\<close>.
\<close>

type_synonym datetime = int

type_synonym any_dict = "(string \<times> string) list"

section \<open>Core data classes\<close>

record CodeReplica =
  node_id :: string
  node_type :: NodeType
  content :: string
  hash :: string
  timestamp :: datetime
  version :: int
  metadata :: any_dict

text \<open>\<^verbatim>\<open>__post_init__\<close>: an empty hash is falsy and is replaced by the digest.\<close>

definition CodeReplica_post_init :: "(string \<Rightarrow> string) \<Rightarrow> CodeReplica \<Rightarrow> CodeReplica" where
  "CodeReplica_post_init digest r =
     (if CodeReplica.hash r = [] then r\<lparr>CodeReplica.hash := digest (CodeReplica.content r)\<rparr> else r)"

record GuardianAgent =
  agent_id :: string
  file_id :: string
  role :: AgentRole
  node_id :: string
  status :: string
  metrics :: any_dict
  state :: any_dict
  watchers :: "string list"
  last_action :: "datetime option"

definition is_active :: "GuardianAgent \<Rightarrow> bool" where
  "is_active a = (GuardianAgent.status a = ''active'')"

text \<open>
  A Python dict keeps its keys in insertion order; it is an association list with
  distinct keys: \<open>map_of\<close> is subscripting, \<open>AList.update\<close> is item assignment
  (in place for a present key, at the end for a new one).
\<close>

record FileMetadata =
  file_id :: string
  path :: string
  replicas :: "(string \<times> CodeReplica) list"
  sync_state :: SyncState
  guardian_id :: "string option"
  secondary_guardians :: "string list"
  access_log :: "any_dict list"

text \<open>
  \<^verbatim>\<open>max(values, key=...)\<close> returns the first maximal element in iteration order: the
  running best is replaced only by a strictly greater one.
\<close>

fun max_by_timestamp :: "CodeReplica \<Rightarrow> CodeReplica list \<Rightarrow> CodeReplica" where
  "max_by_timestamp best [] = best"
| "max_by_timestamp best (r # rs) =
     max_by_timestamp (if CodeReplica.timestamp best < CodeReplica.timestamp r then r else best) rs"

definition get_primary_replica :: "FileMetadata \<Rightarrow> CodeReplica option" where
  "get_primary_replica m =
     (case map snd (replicas m) of
        [] \<Rightarrow> None
      | r # rs \<Rightarrow> Some (max_by_timestamp r rs))"

definition replicas_consistent :: "FileMetadata \<Rightarrow> bool" where
  "replicas_consistent m =
     (if length (replicas m) \<le> 1 then True
      else card (set (map (\<lambda>p. CodeReplica.hash (snd p)) (replicas m))) = 1)"

record MeshNode =
  node_id :: string
  node_type :: NodeType
  location :: string
  status :: string
  hosted_files :: "string list"
  agents :: "(string \<times> GuardianAgent) list"
  capabilities :: "string list"
  load :: rat
  latency_ms :: int

text \<open>
  \<^verbatim>\<open>load\<close> is a Python float. Every float is a rational number and floats are compared
  exactly, so the load is modelled as a rational and the literal \<^verbatim>\<open>0.9\<close> as the exact
  value of the double it denotes, \<open>8106479329266893 / 2^53\<close>.
\<close>

definition is_available :: "MeshNode \<Rightarrow> bool" where
  "is_available n =
     (MeshNode.status n = ''online'' \<and> load n < 8106479329266893 / 9007199254740992)"

datatype plan_step =
  NodeStep int string "string option"
  | NodesStep int string "string list"

record ExecutionPlan =
  plan_id :: string
  file_id :: string
  steps :: "plan_step list"
  target_context :: ExecutionContext
  primary_node :: "string option"
  backup_nodes :: "string list"
  estimated_time_ms :: int
  confidence :: rat

record SyncEvent =
  event_id :: string
  file_id :: string
  source_node :: string
  target_nodes :: "string list"
  timestamp :: datetime
  new_hash :: string
  old_hash :: "string option"
  success :: bool
  latency_ms :: int

section \<open>Mesh network layer\<close>

text \<open>
  A Python set is a list without duplicates, in the set's iteration order (which the
  language does not fix); \<open>set_add\<close> puts a new element last.
\<close>

record MeshNetworkLayer =
  nodes :: "(string \<times> MeshNode) list"
  node_graph :: "(string \<times> string list) list"
  network_latencies :: "((string \<times> string) \<times> int) list"
  bandwidth :: "((string \<times> string) \<times> int) list"
  routing_table :: "(string \<times> string list) list"

definition MeshNetworkLayer_init :: MeshNetworkLayer where
  "MeshNetworkLayer_init =
     \<lparr>nodes = [], node_graph = [], network_latencies = [], bandwidth = [], routing_table = []\<rparr>"

definition set_add :: "'a \<Rightarrow> 'a list \<Rightarrow> 'a list" where
  "set_add x xs = (if x \<in> set xs then xs else xs @ [x])"

definition add_node :: "MeshNode \<Rightarrow> MeshNetworkLayer \<Rightarrow> bool \<times> MeshNetworkLayer" where
  "add_node node self =
     (if map_of (nodes self) (MeshNode.node_id node) \<noteq> None then (False, self)
      else (True, self\<lparr>nodes := AList.update (MeshNode.node_id node) node (nodes self),
                         node_graph := AList.update (MeshNode.node_id node) [] (node_graph self)\<rparr>))"

definition connect_nodes ::
  "string \<Rightarrow> string \<Rightarrow> int \<Rightarrow> int \<Rightarrow> MeshNetworkLayer \<Rightarrow> error + (bool \<times> MeshNetworkLayer)" where
  "connect_nodes node_a node_b latency bandwidth_mbps self =
     (if map_of (nodes self) node_a = None \<or> map_of (nodes self) node_b = None
      then Inr (False, self)
      else case map_of (node_graph self) node_a of
        None \<Rightarrow> Inl (KeyError node_a)
      | Some adj_a \<Rightarrow>
          let g1 = AList.update node_a (set_add node_b adj_a) (node_graph self) in
          (case map_of g1 node_b of
             None \<Rightarrow> Inl (KeyError node_b)
           | Some adj_b \<Rightarrow>
               let g2 = AList.update node_b (set_add node_a adj_b) g1;
                   l1 = AList.update (node_a, node_b) latency (network_latencies self);
                   l2 = AList.update (node_b, node_a) latency l1;
                   b1 = AList.update (node_a, node_b) bandwidth_mbps (bandwidth self);
                   b2 = AList.update (node_b, node_a) bandwidth_mbps b1
               in Inr (True, self\<lparr>node_graph := g2, network_latencies := l2, bandwidth := b2\<rparr>)))"

subsection \<open>Shortest paths\<close>

text \<open>
  A distance of \<^verbatim>\<open>find_best_path\<close> is an integer or \<^verbatim>\<open>float('inf')\<close>. Adding a latency
  to infinity gives infinity, and nothing is greater than infinity.
\<close>

datatype distance = Finite int | Infinity

fun dist_add :: "distance \<Rightarrow> int \<Rightarrow> distance" where
  "dist_add (Finite d) l = Finite (d + l)"
| "dist_add Infinity l = Infinity"

fun dist_less :: "distance \<Rightarrow> distance \<Rightarrow> bool" where
  "dist_less (Finite a) (Finite b) = (a < b)"
| "dist_less (Finite a) Infinity = True"
| "dist_less Infinity d = False"

text \<open>\<^verbatim>\<open>self.node_graph.get(current, [])\<close> and \<^verbatim>\<open>self.network_latencies.get((a, b), 0)\<close>.\<close>

definition neighbors :: "MeshNetworkLayer \<Rightarrow> string \<Rightarrow> string list" where
  "neighbors self current = (case map_of (node_graph self) current of None \<Rightarrow> [] | Some ns \<Rightarrow> ns)"

definition latency_of :: "MeshNetworkLayer \<Rightarrow> string \<Rightarrow> string \<Rightarrow> int" where
  "latency_of self a b = (case map_of (network_latencies self) (a, b) of None \<Rightarrow> 0 | Some l \<Rightarrow> l)"

text \<open>
  The dicts \<^verbatim>\<open>distances\<close> and \<^verbatim>\<open>previous\<close> have the registered nodes as keys and are
  only ever subscripted with registered nodes, so they are total functions here; the
  value \<open>None\<close> of \<open>previous\<close> is Python's \<^verbatim>\<open>None\<close>. The set \<^verbatim>\<open>unvisited\<close> is the list
  of its elements in iteration order.

  The inner \<^verbatim>\<open>for\<close> loop over the neighbours of \<open>current\<close>:
\<close>

fun relax_neighbors ::
  "MeshNetworkLayer \<Rightarrow> string \<Rightarrow> string list \<Rightarrow> string list \<Rightarrow>
   (string \<Rightarrow> distance) \<times> (string \<Rightarrow> string option) \<Rightarrow>
   (string \<Rightarrow> distance) \<times> (string \<Rightarrow> string option)" where
  "relax_neighbors self current unvisited [] dp = dp"
| "relax_neighbors self current unvisited (neighbor # rest) dp =
     (if neighbor \<in> set unvisited
      then let new_distance = dist_add (fst dp current) (latency_of self current neighbor) in
           if dist_less new_distance (fst dp neighbor)
           then relax_neighbors self current unvisited rest
                  ((fst dp)(neighbor := new_distance), (snd dp)(neighbor := Some current))
           else relax_neighbors self current unvisited rest dp
      else relax_neighbors self current unvisited rest dp)"

text \<open>
  \<^verbatim>\<open>min(xs, key=...)\<close> returns the first minimal element in iteration order: the running
  best is replaced only by a strictly smaller one.
\<close>

fun first_min :: "('a \<Rightarrow> 'a \<Rightarrow> bool) \<Rightarrow> 'a \<Rightarrow> 'a list \<Rightarrow> 'a" where
  "first_min lt best [] = best"
| "first_min lt best (x # xs) = first_min lt (if lt x best then x else best) xs"

lemma first_min_mem: "first_min lt b xs \<in> set (b # xs)"
  by (induction xs arbitrary: b) auto

text \<open>The \<^verbatim>\<open>while unvisited\<close> loop, with its two \<^verbatim>\<open>break\<close>s.\<close>

function dijkstra_loop ::
  "MeshNetworkLayer \<Rightarrow> string \<Rightarrow> string list \<Rightarrow>
   (string \<Rightarrow> distance) \<times> (string \<Rightarrow> string option) \<Rightarrow>
   (string \<Rightarrow> distance) \<times> (string \<Rightarrow> string option)" where
  "dijkstra_loop self target [] dp = dp"
| "dijkstra_loop self target (u # us) dp =
     (let current = first_min (\<lambda>a b. dist_less (fst dp a) (fst dp b)) u us in
      if fst dp current = Infinity then dp
      else if current = target then dp
      else dijkstra_loop self target (removeAll current (u # us))
             (relax_neighbors self current (u # us) (neighbors self current) dp))"
  by pat_completeness auto
termination
proof (relation "measure (\<lambda>(self, target, unvisited, dp). length unvisited)")
  show "wf (measure (\<lambda>(self, target, unvisited, dp). length unvisited))" by simp
next
  fix self :: MeshNetworkLayer and target u :: string and us :: "string list"
    and dp :: "(string \<Rightarrow> distance) \<times> (string \<Rightarrow> string option)" and x :: string
  assume "x = first_min (\<lambda>a b. dist_less (fst dp a) (fst dp b)) u us"
  then have "x \<in> set (u # us)" by (simp only: first_min_mem)
  then have "length (removeAll x (u # us)) < length (u # us)" by (rule length_removeAll_less)
  then show "((self, target, removeAll x (u # us),
        relax_neighbors self x (u # us) (neighbors self x) dp), self, target, u # us, dp)
      \<in> measure (\<lambda>(self, target, unvisited, dp). length unvisited)"
    by simp
qed

text \<open>
  The loop that follows \<^verbatim>\<open>previous\<close> back from the target. Nothing bounds it in the
  source, so not returning is the value \<open>None\<close>.
\<close>

partial_function (option) reconstruct ::
  "(string \<Rightarrow> string option) \<Rightarrow> string option \<Rightarrow> string list \<Rightarrow> string list option" where
  "reconstruct previous current pth =
     (case current of
        None \<Rightarrow> Some pth
      | Some c \<Rightarrow> reconstruct previous (previous c) (pth @ [c]))"

text \<open>
  \<open>order\<close> is the iteration order of \<^verbatim>\<open>set(self.nodes.keys())\<close>, which Python does not
  fix: some enumeration of the registered node ids.
\<close>

definition find_best_path ::
  "string list \<Rightarrow> string \<Rightarrow> string \<Rightarrow> MeshNetworkLayer \<Rightarrow> string list option" where
  "find_best_path order source target self =
     (if map_of (nodes self) source = None \<or> map_of (nodes self) target = None then Some []
      else if source = target then Some [source]
      else let dp = dijkstra_loop self target order
                      ((\<lambda>n. Infinity)(source := Finite 0), (\<lambda>n. None))
           in map_option rev (reconstruct (snd dp) (Some target) []))"

section \<open>Code replication manager\<close>

text \<open>
  The manager's reference to the shared network object is passed to each operation as
  the argument \<open>network\<close>.
\<close>

record CodeReplicationManager =
  files :: "(string \<times> FileMetadata) list"
  sync_events :: "SyncEvent list"
  replica_factor :: int

definition CodeReplicationManager_init :: CodeReplicationManager where
  "CodeReplicationManager_init = \<lparr>files = [], sync_events = [], replica_factor = 3\<rparr>"

definition register_file ::
  "MeshNetworkLayer \<Rightarrow> (string \<Rightarrow> string) \<Rightarrow> datetime \<Rightarrow> string \<Rightarrow> string \<Rightarrow> string \<Rightarrow> string \<Rightarrow>
   CodeReplicationManager \<Rightarrow> error + (bool \<times> CodeReplicationManager)" where
  "register_file network digest now fid pth initial_content primary_nd self =
     (if map_of (files self) fid \<noteq> None then Inr (False, self)
      else case map_of (nodes network) primary_nd of
        None \<Rightarrow> Inl (KeyError primary_nd)
      | Some n \<Rightarrow>
          let md = \<lparr>FileMetadata.file_id = fid, path = pth,
                    replicas = [(primary_nd, CodeReplica_post_init digest
                      \<lparr>CodeReplica.node_id = primary_nd,
                       CodeReplica.node_type = MeshNode.node_type n,
                       content = initial_content, hash = [],
                       CodeReplica.timestamp = now, version = 1, metadata = []\<rparr>)],
                    sync_state = SYNCED, guardian_id = None, secondary_guardians = [],
                    access_log = []\<rparr>
          in Inr (True, self\<lparr>files := AList.update fid md (files self)\<rparr>))"

text \<open>The loop of \<^verbatim>\<open>replicate_file\<close>; \<open>k\<close> counts the clock readings made so far.\<close>

fun replicate_loop ::
  "MeshNetworkLayer \<Rightarrow> (string \<Rightarrow> string) \<Rightarrow> (nat \<Rightarrow> datetime) \<Rightarrow> CodeReplica \<Rightarrow> nat \<Rightarrow> string list \<Rightarrow>
   (string \<times> CodeReplica) list \<Rightarrow> (string \<times> CodeReplica) list" where
  "replicate_loop network digest tick primary k [] reps = reps"
| "replicate_loop network digest tick primary k (nid # rest) reps =
     (case map_of (nodes network) nid of
        Some n \<Rightarrow>
          if map_of reps nid = None
          then replicate_loop network digest tick primary (Suc k) rest
                 (AList.update nid (CodeReplica_post_init digest
                    \<lparr>CodeReplica.node_id = nid,
                     CodeReplica.node_type = MeshNode.node_type n,
                     content = CodeReplica.content primary,
                     hash = CodeReplica.hash primary,
                     CodeReplica.timestamp = tick k,
                     version = CodeReplica.version primary, metadata = []\<rparr>) reps)
          else replicate_loop network digest tick primary k rest reps
      | None \<Rightarrow> replicate_loop network digest tick primary k rest reps)"

definition replicate_file ::
  "MeshNetworkLayer \<Rightarrow> (string \<Rightarrow> string) \<Rightarrow> (nat \<Rightarrow> datetime) \<Rightarrow> string \<Rightarrow> string list \<Rightarrow>
   CodeReplicationManager \<Rightarrow> bool \<times> CodeReplicationManager" where
  "replicate_file network digest tick fid targets self =
     (case map_of (files self) fid of
        None \<Rightarrow> (False, self)
      | Some md \<Rightarrow>
          (case get_primary_replica md of
             None \<Rightarrow> (False, self)
           | Some primary \<Rightarrow>
               (True, self\<lparr>files := AList.update fid
                  (md\<lparr>replicas := replicate_loop network digest tick primary 0 targets (replicas md)\<rparr>)
                  (files self)\<rparr>)))"

text \<open>
  The loop of \<^verbatim>\<open>sync_file\<close> over \<^verbatim>\<open>metadata.replicas.items()\<close>: every replica but the
  source node's is overwritten in place.
\<close>

fun sync_loop ::
  "string \<Rightarrow> string \<Rightarrow> string \<Rightarrow> (nat \<Rightarrow> datetime) \<Rightarrow> nat \<Rightarrow> (string \<times> CodeReplica) list \<Rightarrow>
   (string \<times> CodeReplica) list" where
  "sync_loop src new_content h tick k [] = []"
| "sync_loop src new_content h tick k (p # rest) =
     (if fst p \<noteq> src
      then (fst p, (snd p)\<lparr>content := new_content, hash := h, CodeReplica.timestamp := tick k,
                            version := CodeReplica.version (snd p) + 1\<rparr>)
             # sync_loop src new_content h tick (Suc k) rest
      else p # sync_loop src new_content h tick k rest)"

definition sync_file ::
  "(string \<Rightarrow> string) \<Rightarrow> (nat \<Rightarrow> datetime) \<Rightarrow> string \<Rightarrow> string \<Rightarrow> string \<Rightarrow> string \<Rightarrow>
   CodeReplicationManager \<Rightarrow> bool \<times> CodeReplicationManager" where
  "sync_file digest tick uuid fid new_content src self =
     (case map_of (files self) fid of
        None \<Rightarrow> (False, self)
      | Some md \<Rightarrow>
          let h = digest new_content;
              targets = filter (\<lambda>n. n \<noteq> src) (map fst (replicas md));
              md1 = md\<lparr>replicas := sync_loop src new_content h tick 0 (replicas md)\<rparr>;
              event = \<lparr>event_id = uuid, SyncEvent.file_id = fid, source_node = src,
                       target_nodes = targets, SyncEvent.timestamp = tick (length targets),
                       new_hash = h,
                       old_hash = (case get_primary_replica md1 of
                                     Some p \<Rightarrow> Some (CodeReplica.hash p) | None \<Rightarrow> None),
                       success = True, SyncEvent.latency_ms = 0\<rparr>;
              md2 = md1\<lparr>sync_state := (if replicas_consistent md1 then SYNCED else PENDING)\<rparr>
          in (True, self\<lparr>files := AList.update fid md2 (files self),
                          sync_events := sync_events self @ [event]\<rparr>))"

fun resolve_loop ::
  "string \<Rightarrow> CodeReplica \<Rightarrow> (nat \<Rightarrow> datetime) \<Rightarrow> nat \<Rightarrow> (string \<times> CodeReplica) list \<Rightarrow>
   (string \<times> CodeReplica) list" where
  "resolve_loop w winning tick k [] = []"
| "resolve_loop w winning tick k (p # rest) =
     (if fst p \<noteq> w
      then (fst p, (snd p)\<lparr>content := CodeReplica.content winning,
                            hash := CodeReplica.hash winning,
                            CodeReplica.timestamp := tick k,
                            version := CodeReplica.version winning + 1\<rparr>)
             # resolve_loop w winning tick (Suc k) rest
      else p # resolve_loop w winning tick k rest)"

definition resolve_conflict ::
  "(nat \<Rightarrow> datetime) \<Rightarrow> string \<Rightarrow> string \<Rightarrow> CodeReplicationManager \<Rightarrow>
   bool \<times> CodeReplicationManager" where
  "resolve_conflict tick fid winning_replica_node self =
     (case map_of (files self) fid of
        None \<Rightarrow> (False, self)
      | Some md \<Rightarrow>
          (case map_of (replicas md) winning_replica_node of
             None \<Rightarrow> (False, self)
           | Some winning \<Rightarrow>
               (True, self\<lparr>files := AList.update fid
                  (md\<lparr>replicas := resolve_loop winning_replica_node winning tick 0 (replicas md),
                      sync_state := SYNCED\<rparr>)
                  (files self)\<rparr>)))"

section \<open>Guardian agent system\<close>

text \<open>
  The system's reference to the replication manager is passed to the operations that
  use it. \<open>uuid8\<close> stands for \<^verbatim>\<open>uuid.uuid4().hex[:8]\<close>.
\<close>

record GuardianAgentSystem =
  agents :: "(string \<times> GuardianAgent) list"
  file_guardians :: "(string \<times> string) list"

definition GuardianAgentSystem_init :: GuardianAgentSystem where
  "GuardianAgentSystem_init = \<lparr>GuardianAgentSystem.agents = [], file_guardians = []\<rparr>"

definition create_guardian ::
  "string \<Rightarrow> string \<Rightarrow> string \<Rightarrow> AgentRole \<Rightarrow> GuardianAgentSystem \<Rightarrow>
   GuardianAgent \<times> GuardianAgentSystem" where
  "create_guardian uuid8 fid nid rl self =
     (let aid = ''guardian_'' @ fid @ ''_'' @ uuid8;
          agent = \<lparr>agent_id = aid, GuardianAgent.file_id = fid, role = rl,
                   GuardianAgent.node_id = nid, GuardianAgent.status = ''active'',
                   metrics = [], state = [], watchers = [], last_action = None\<rparr>;
          self1 = self\<lparr>GuardianAgentSystem.agents :=
                    AList.update aid agent (GuardianAgentSystem.agents self)\<rparr>;
          self2 = (if map_of (file_guardians self1) fid = None
                   then self1\<lparr>file_guardians := AList.update fid aid (file_guardians self1)\<rparr>
                   else self1)
      in (agent, self2))"

definition add_secondary_guardian ::
  "string \<Rightarrow> string \<Rightarrow> GuardianAgentSystem \<Rightarrow> CodeReplicationManager \<Rightarrow>
   bool \<times> CodeReplicationManager" where
  "add_secondary_guardian fid aid self replication =
     (case map_of (files replication) fid of
        None \<Rightarrow> (False, replication)
      | Some md \<Rightarrow>
          if map_of (GuardianAgentSystem.agents self) aid = None then (False, replication)
          else if aid \<in> set (secondary_guardians md) then (True, replication)
          else (True, replication\<lparr>files := AList.update fid
                  (md\<lparr>secondary_guardians := secondary_guardians md @ [aid]\<rparr>)
                  (files replication)\<rparr>))"

text \<open>
  The dict \<^verbatim>\<open>monitor_file\<close> returns: empty, or the nine entries \<^verbatim>\<open>file_id\<close>,
  \<^verbatim>\<open>guardian_id\<close>, \<^verbatim>\<open>guardian_status\<close>, \<^verbatim>\<open>sync_state\<close>, \<^verbatim>\<open>replica_count\<close>,
  \<^verbatim>\<open>replicas_consistent\<close>, \<^verbatim>\<open>version\<close>, \<^verbatim>\<open>last_sync\<close>, \<^verbatim>\<open>access_count\<close> in this order.
\<close>

datatype monitor_result =
  Empty
  | Snapshot string string string string nat bool int "datetime option" nat

definition monitor_file ::
  "string \<Rightarrow> GuardianAgentSystem \<Rightarrow> CodeReplicationManager \<Rightarrow> error + monitor_result" where
  "monitor_file fid self replication =
     (case map_of (file_guardians self) fid of
        None \<Rightarrow> Inr Empty
      | Some gid \<Rightarrow>
          (case map_of (GuardianAgentSystem.agents self) gid of
             None \<Rightarrow> Inl (KeyError gid)
           | Some guardian \<Rightarrow>
               (case map_of (files replication) fid of
                  None \<Rightarrow> Inl (KeyError fid)
                | Some md \<Rightarrow>
                    let primary = get_primary_replica md in
                    Inr (Snapshot fid gid (GuardianAgent.status guardian)
                          (SyncState_value (sync_state md))
                          (length (replicas md))
                          (replicas_consistent md)
                          (case primary of Some p \<Rightarrow> CodeReplica.version p | None \<Rightarrow> 0)
                          (case primary of Some p \<Rightarrow> Some (CodeReplica.timestamp p) | None \<Rightarrow> None)
                          (length (access_log md))))))"

section \<open>Execution router\<close>

definition plan_steps :: "string option \<Rightarrow> string list \<Rightarrow> string list \<Rightarrow> plan_step list" where
  "plan_steps primary backups holders =
     [NodeStep 1 ''fetch_replica'' primary,
      NodeStep 2 ''compile'' primary,
      NodeStep 3 ''execute'' primary,
      NodeStep 4 ''verify'' (case backups of b # bs \<Rightarrow> Some b | [] \<Rightarrow> primary),
      NodesStep 5 ''sync_results'' holders]"

text \<open>\<open>uuid\<close> stands for \<^verbatim>\<open>str(uuid.uuid4())\<close>.\<close>

definition plan_execution ::
  "string \<Rightarrow> string \<Rightarrow> ExecutionContext \<Rightarrow> string \<Rightarrow> MeshNetworkLayer \<Rightarrow> CodeReplicationManager \<Rightarrow>
   ExecutionPlan option" where
  "plan_execution uuid fid ctx developer_node network replication =
     (case map_of (files replication) fid of
        None \<Rightarrow> None
      | Some md \<Rightarrow>
          let plan = \<lparr>plan_id = uuid, ExecutionPlan.file_id = fid, steps = [],
                      target_context = ctx, primary_node = None, backup_nodes = [],
                      estimated_time_ms = 0, confidence = 0\<rparr>;
              vals = map snd (nodes network);
              plan1 =
                (case ctx of
                   ExecutionContext.LOCAL \<Rightarrow> plan\<lparr>primary_node := Some developer_node\<rparr>
                 | ExecutionContext.EDGE \<Rightarrow>
                     (case filter (\<lambda>n. MeshNode.node_type n = NodeType.EDGE \<and> is_available n) vals of
                        [] \<Rightarrow> plan
                      | n # ns \<Rightarrow> plan\<lparr>primary_node := Some (MeshNode.node_id
                          (first_min (\<lambda>a b. MeshNode.latency_ms a < MeshNode.latency_ms b) n ns))\<rparr>)
                 | ExecutionContext.CLOUD \<Rightarrow>
                     (case filter (\<lambda>n. MeshNode.node_type n = NodeType.CLOUD \<and> is_available n) vals of
                        [] \<Rightarrow> plan
                      | n # ns \<Rightarrow> plan\<lparr>primary_node := Some (MeshNode.node_id
                          (first_min (\<lambda>a b. load a < load b) n ns))\<rparr>)
                 | ExecutionContext.QUANTUM \<Rightarrow>
                     (case filter (\<lambda>n. MeshNode.node_type n = NodeType.QUANTUM) vals of
                        [] \<Rightarrow> plan
                      | n # ns \<Rightarrow> plan\<lparr>primary_node := Some (MeshNode.node_id n)\<rparr>)
                 | ExecutionContext.HYBRID \<Rightarrow>
                     plan\<lparr>primary_node := Some developer_node,
                          backup_nodes := take 2 (map MeshNode.node_id
                            (filter (\<lambda>n. MeshNode.node_id n \<noteq> developer_node \<and> is_available n) vals))\<rparr>)
          in Some (plan1\<lparr>steps := plan_steps (primary_node plan1) (backup_nodes plan1)
                                      (map fst (replicas md))\<rparr>))"

section \<open>Mesh IDE coordinator\<close>

text \<open>
  The four components of the coordinator. \<^verbatim>\<open>add_file\<close> derives the file id from the
  path with \<open>md5_8\<close>, which stands for \<^verbatim>\<open>hashlib.md5(path.encode()).hexdigest()[:8]\<close>;
  \<open>uuids i\<close> is the value \<^verbatim>\<open>uuid.uuid4().hex[:8]\<close> of the \<open>i\<close>-th guardian created.
\<close>

record MeshIDECoordinator =
  network :: MeshNetworkLayer
  replication :: CodeReplicationManager
  guardians :: GuardianAgentSystem
  coordinator_id :: string

definition MeshIDECoordinator_init :: "string \<Rightarrow> MeshIDECoordinator" where
  "MeshIDECoordinator_init cid =
     \<lparr>network = MeshNetworkLayer_init, replication = CodeReplicationManager_init,
      guardians = GuardianAgentSystem_init, coordinator_id = cid\<rparr>"

fun secondary_guardians_loop ::
  "(nat \<Rightarrow> string) \<Rightarrow> nat \<Rightarrow> string \<Rightarrow> string list \<Rightarrow> GuardianAgentSystem \<times> CodeReplicationManager \<Rightarrow>
   GuardianAgentSystem \<times> CodeReplicationManager" where
  "secondary_guardians_loop uuids i fid [] gr = gr"
| "secondary_guardians_loop uuids i fid (nid # rest) gr =
     (let (agent, g1) = create_guardian (uuids i) fid nid MONITOR (fst gr);
          r1 = snd (add_secondary_guardian fid (agent_id agent) g1 (snd gr))
      in secondary_guardians_loop uuids (Suc i) fid rest (g1, r1))"

definition add_file ::
  "(string \<Rightarrow> string) \<Rightarrow> (string \<Rightarrow> string) \<Rightarrow> datetime \<Rightarrow> (nat \<Rightarrow> datetime) \<Rightarrow> (nat \<Rightarrow> string) \<Rightarrow>
   string \<Rightarrow> string \<Rightarrow> string \<Rightarrow> MeshIDECoordinator \<Rightarrow> error + (string option \<times> MeshIDECoordinator)" where
  "add_file digest md5_8 now tick uuids pth c primary self =
     (let fid = ''file_'' @ md5_8 pth in
      case register_file (network self) digest now fid pth c primary (replication self) of
        Inl e \<Rightarrow> Inl e
      | Inr reg \<Rightarrow>
          let g1 = snd (create_guardian (uuids 0) fid primary GUARDIAN (guardians self));
              replica_nodes = take 2 (map MeshNode.node_id
                (filter (\<lambda>n. MeshNode.node_id n \<noteq> primary \<and> is_available n)
                   (map snd (nodes (network self)))));
              r1 = snd (replicate_file (network self) digest tick fid replica_nodes (snd reg));
              gr = secondary_guardians_loop uuids 1 fid replica_nodes (g1, r1)
          in Inr (Some fid, self\<lparr>replication := snd gr, guardians := fst gr\<rparr>))"

section \<open>Vocabulary of the properties\<close>

subsection \<open>Sequences of replication operations\<close>

text \<open>
  A run of manager operations stops at the first exception, as the Python caller's would.
\<close>

datatype replication_op =
  RegisterFile datetime string string string string
  | ReplicateFile "nat \<Rightarrow> datetime" string "string list"
  | SyncFile "nat \<Rightarrow> datetime" string string string string
  | ResolveConflict "nat \<Rightarrow> datetime" string string

fun apply_op ::
  "MeshNetworkLayer \<Rightarrow> (string \<Rightarrow> string) \<Rightarrow> replication_op \<Rightarrow> CodeReplicationManager \<Rightarrow>
   error + CodeReplicationManager" where
  "apply_op net digest (RegisterFile now fid pth c n) s =
     (case register_file net digest now fid pth c n s of
        Inl e \<Rightarrow> Inl e | Inr r \<Rightarrow> Inr (snd r))"
| "apply_op net digest (ReplicateFile tick fid targets) s =
     Inr (snd (replicate_file net digest tick fid targets s))"
| "apply_op net digest (SyncFile tick uuid fid c src) s =
     Inr (snd (sync_file digest tick uuid fid c src s))"
| "apply_op net digest (ResolveConflict tick fid w) s =
     Inr (snd (resolve_conflict tick fid w s))"

fun run_ops ::
  "MeshNetworkLayer \<Rightarrow> (string \<Rightarrow> string) \<Rightarrow> replication_op list \<Rightarrow> CodeReplicationManager \<Rightarrow>
   error + CodeReplicationManager" where
  "run_ops net digest [] s = Inr s"
| "run_ops net digest (op # ops) s =
     (case apply_op net digest op s of
        Inl e \<Rightarrow> Inl e | Inr s' \<Rightarrow> run_ops net digest ops s')"

fun is_resolve :: "replication_op \<Rightarrow> bool" where
  "is_resolve (ResolveConflict tick fid w) = True"
| "is_resolve _ = False"

definition version_of :: "CodeReplicationManager \<Rightarrow> string \<Rightarrow> string \<Rightarrow> int option" where
  "version_of s fid n =
     (case map_of (files s) fid of
        None \<Rightarrow> None
      | Some md \<Rightarrow> map_option CodeReplica.version (map_of (replicas md) n))"

definition version_after ::
  "MeshNetworkLayer \<Rightarrow> (string \<Rightarrow> string) \<Rightarrow> replication_op list \<Rightarrow> string \<Rightarrow> string \<Rightarrow> int option" where
  "version_after net digest ops fid n =
     (case run_ops net digest ops CodeReplicationManager_init of
        Inl e \<Rightarrow> None | Inr s \<Rightarrow> version_of s fid n)"

definition file_after ::
  "MeshNetworkLayer \<Rightarrow> (string \<Rightarrow> string) \<Rightarrow> replication_op list \<Rightarrow> string \<Rightarrow> FileMetadata option" where
  "file_after net digest ops fid =
     (case run_ops net digest ops CodeReplicationManager_init of
        Inl e \<Rightarrow> None | Inr s \<Rightarrow> map_of (files s) fid)"

definition events_after ::
  "MeshNetworkLayer \<Rightarrow> (string \<Rightarrow> string) \<Rightarrow> replication_op list \<Rightarrow> SyncEvent list" where
  "events_after net digest ops =
     (case run_ops net digest ops CodeReplicationManager_init of
        Inl e \<Rightarrow> [] | Inr s \<Rightarrow> sync_events s)"

text \<open>The two hashes an event records.\<close>

definition event_hashes :: "SyncEvent \<Rightarrow> string option \<times> string" where
  "event_hashes e = (old_hash e, new_hash e)"

text \<open>
  What a replica holds, apart from its timestamp: node, content, hash and version.
\<close>

definition replica_view :: "string \<times> CodeReplica \<Rightarrow> string \<times> string \<times> string \<times> int" where
  "replica_view p =
     (fst p, CodeReplica.content (snd p), CodeReplica.hash (snd p), CodeReplica.version (snd p))"

subsection \<open>Routes and their latency\<close>

text \<open>\<^verbatim>\<open>n in self.nodes\<close>.\<close>

definition registered :: "MeshNetworkLayer \<Rightarrow> string \<Rightarrow> bool" where
  "registered self n = (map_of (nodes self) n \<noteq> None)"

text \<open>A recorded link between two registered nodes.\<close>

definition link :: "MeshNetworkLayer \<Rightarrow> string \<Rightarrow> string \<Rightarrow> bool" where
  "link self a b = (registered self a \<and> registered self b \<and> b \<in> set (neighbors self a))"

text \<open>
  A route is a non-empty list of registered nodes whose consecutive pairs are links; its
  latency is the sum of the latencies of these pairs.
\<close>

fun is_route :: "MeshNetworkLayer \<Rightarrow> string list \<Rightarrow> bool" where
  "is_route self [] = False"
| "is_route self [a] = registered self a"
| "is_route self (a # b # rest) = (link self a b \<and> is_route self (b # rest))"

fun route_latency :: "MeshNetworkLayer \<Rightarrow> string list \<Rightarrow> int" where
  "route_latency self (a # b # rest) = latency_of self a b + route_latency self (b # rest)"
| "route_latency self [a] = 0"
| "route_latency self [] = 0"

definition nonneg_latencies :: "MeshNetworkLayer \<Rightarrow> bool" where
  "nonneg_latencies self = list_all (\<lambda>p. 0 \<le> snd p) (network_latencies self)"

section \<open>Example states\<close>

text \<open>
  The values of \<^verbatim>\<open>hashlib.sha256(s.encode()).hexdigest()[:16]\<close> at the contents the
  examples use; the examples apply the digest to no other string.
\<close>

definition sha256_16_known :: "string \<Rightarrow> string" where
  "sha256_16_known s =
     (case map_of [(''x = 1'', ''8ff436def1451285''), (''x = 2'', ''1431b986377b5430''),
                   (''x = 3'', ''b8478134ca415333''), (''v1'', ''3bfc269594ef6492''),
                   (''code'', ''5694d08a2e53ffca'')] s of
        Some h \<Rightarrow> h | None \<Rightarrow> [])"

text \<open>The three nodes the repository's tests set up, each with the dataclass defaults.\<close>

definition test_node :: "string \<Rightarrow> NodeType \<Rightarrow> MeshNode" where
  "test_node n ty =
     \<lparr>MeshNode.node_id = n, MeshNode.node_type = ty, location = n, MeshNode.status = ''online'',
      hosted_files = [], agents = [], capabilities = [], load = 0, MeshNode.latency_ms = 0\<rparr>"

definition test_network :: MeshNetworkLayer where
  "test_network =
     snd (add_node (test_node ''cloud_1'' NodeType.CLOUD)
       (snd (add_node (test_node ''edge_1'' NodeType.EDGE)
         (snd (add_node (test_node ''local_1'' NodeType.LOCAL) MeshNetworkLayer_init)))))"

text \<open>
  The divergent state of the test \<^verbatim>\<open>test_conflict_resolution\<close>:
  three replicas of \<^verbatim>\<open>file_001\<close>, replicated from the content
  \<^verbatim>\<open>v1\<close> (so all with its hash) and then set apart by hand.
\<close>

definition diverged_replica :: "string \<Rightarrow> NodeType \<Rightarrow> string \<Rightarrow> datetime \<Rightarrow> CodeReplica" where
  "diverged_replica n ty c t =
     \<lparr>CodeReplica.node_id = n, CodeReplica.node_type = ty, content = c,
      hash = ''3bfc269594ef6492'', CodeReplica.timestamp = t, version = 1, metadata = []\<rparr>"

definition diverged_file :: FileMetadata where
  "diverged_file =
     \<lparr>FileMetadata.file_id = ''file_001'', path = ''test.py'',
      replicas = [(''local_1'', diverged_replica ''local_1'' NodeType.LOCAL ''v1'' 10),
                  (''edge_1'', diverged_replica ''edge_1'' NodeType.EDGE ''v2'' 11),
                  (''cloud_1'', diverged_replica ''cloud_1'' NodeType.CLOUD ''v3'' 12)],
      sync_state = CONFLICT, guardian_id = None, secondary_guardians = [], access_log = []\<rparr>"

definition diverged_manager :: CodeReplicationManager where
  "diverged_manager = \<lparr>files = [(''file_001'', diverged_file)], sync_events = [], replica_factor = 3\<rparr>"

definition two_syncs :: "replication_op list" where
  "two_syncs =
     [RegisterFile 1 ''file_001'' ''test.py'' ''x = 1'' ''local_1'',
      ReplicateFile (\<lambda>k. 2 + int k) ''file_001'' [''edge_1''],
      SyncFile (\<lambda>k. 10 + int k) ''e1'' ''file_001'' ''x = 2'' ''local_1'',
      SyncFile (\<lambda>k. 20 + int k) ''e2'' ''file_001'' ''x = 3'' ''local_1'']"

text \<open>
  The scenario of \<^verbatim>\<open>test_sync_file\<close>: register on
  \<^verbatim>\<open>local_1\<close>, replicate to \<^verbatim>\<open>edge_1\<close>, sync
  new content from \<^verbatim>\<open>local_1\<close>. The list \<open>two_syncs\<close>
  above is the same scenario with one more sync.
\<close>

definition sync_from_holder :: "replication_op list" where
  "sync_from_holder =
     [RegisterFile 1 ''file_001'' ''test.py'' ''x = 1'' ''local_1'',
      ReplicateFile (\<lambda>k. 2 + int k) ''file_001'' [''edge_1''],
      SyncFile (\<lambda>k. 10 + int k) ''e1'' ''file_001'' ''x = 2'' ''local_1'']"

text \<open>
  The scenario of \<^verbatim>\<open>test_sync_file\<close> with a clock that stands still (every reading is
  10), and with a clock that is set back between the registration (100, 101) and the
  sync (50).
\<close>

definition sync_clock_tie :: "replication_op list" where
  "sync_clock_tie =
     [RegisterFile 10 ''file_001'' ''test.py'' ''x = 1'' ''local_1'',
      ReplicateFile (\<lambda>k. 10) ''file_001'' [''edge_1''],
      SyncFile (\<lambda>k. 10) ''e1'' ''file_001'' ''x = 2'' ''local_1'']"

definition sync_clock_back :: "replication_op list" where
  "sync_clock_back =
     [RegisterFile 100 ''file_001'' ''test.py'' ''x = 1'' ''local_1'',
      ReplicateFile (\<lambda>k. 101 + int k) ''file_001'' [''edge_1''],
      SyncFile (\<lambda>k. 50 + int k) ''e1'' ''file_001'' ''x = 2'' ''local_1'']"

text \<open>A network whose only quantum node is offline.\<close>

definition quantum_offline_network :: MeshNetworkLayer where
  "quantum_offline_network =
     snd (add_node ((test_node ''quantum_1'' NodeType.QUANTUM)\<lparr>MeshNode.status := ''offline''\<rparr>)
       (snd (add_node (test_node ''local_1'' NodeType.LOCAL) MeshNetworkLayer_init)))"

text \<open>
  The network of \<^verbatim>\<open>test_pathfinding\<close> with one more, slower, direct link:
  \<^verbatim>\<open>local_1\<close> - \<^verbatim>\<open>edge_1\<close> (50 ms), \<^verbatim>\<open>edge_1\<close> - \<^verbatim>\<open>cloud_1\<close> (100 ms),
  \<^verbatim>\<open>local_1\<close> - \<^verbatim>\<open>cloud_1\<close> (200 ms).
\<close>

fun connect_all :: "(string \<times> string \<times> int) list \<Rightarrow> MeshNetworkLayer \<Rightarrow> error + MeshNetworkLayer" where
  "connect_all [] self = Inr self"
| "connect_all ((a, b, l) # rest) self =
     (case connect_nodes a b l 100 self of
        Inl e \<Rightarrow> Inl e
      | Inr r \<Rightarrow> connect_all rest (snd r))"

definition linked_network :: MeshNetworkLayer where
  "linked_network =
     (case connect_all [(''local_1'', ''edge_1'', 50), (''edge_1'', ''cloud_1'', 100),
                        (''local_1'', ''cloud_1'', 200)] test_network of
        Inl e \<Rightarrow> test_network | Inr n \<Rightarrow> n)"

section \<open>Lookup in dictionaries\<close>

lemma map_of_update_same: "map_of (AList.update k v al) k = Some v"
  by (simp add: update_conv')

lemma map_of_update_other: "k' \<noteq> k \<Longrightarrow> map_of (AList.update k v al) k' = map_of al k'"
  by (simp add: update_conv')

lemma test_network_nodes:
  "nodes test_network = [(''local_1'', test_node ''local_1'' NodeType.LOCAL),
     (''edge_1'', test_node ''edge_1'' NodeType.EDGE), (''cloud_1'', test_node ''cloud_1'' NodeType.CLOUD)]"
  by (simp add: test_network_def add_node_def MeshNetworkLayer_init_def test_node_def)

lemma linked_network_fields:
  "nodes linked_network = nodes test_network"
  "node_graph linked_network = [(''local_1'', [''edge_1'', ''cloud_1'']),
     (''edge_1'', [''local_1'', ''cloud_1'']), (''cloud_1'', [''edge_1'', ''local_1''])]"
  "network_latencies linked_network = [((''local_1'', ''edge_1''), 50), ((''edge_1'', ''local_1''), 50),
     ((''edge_1'', ''cloud_1''), 100), ((''cloud_1'', ''edge_1''), 100),
     ((''local_1'', ''cloud_1''), 200), ((''cloud_1'', ''local_1''), 200)]"
  by (simp_all add: linked_network_def connect_nodes_def test_network_def add_node_def
      MeshNetworkLayer_init_def test_node_def set_add_def Let_def)

section \<open>Replica consistency after a sync (C1)\<close>

text \<open>
  Claim C1, at the input of the repository's own test \<^verbatim>\<open>test_sync_file\<close> (register on
  \<^verbatim>\<open>local_1\<close>, replicate to \<^verbatim>\<open>edge_1\<close>, sync new content from \<^verbatim>\<open>local_1\<close>): the
  replica of the source node keeps the old content, hash and version, the replicas are
  not consistent and the file is left pending.
\<close>

theorem sync_leaves_source_replica_stale:
  "map_option (\<lambda>md. (map replica_view (replicas md), replicas_consistent md, sync_state md))
     (file_after test_network sha256_16_known sync_from_holder ''file_001'')
   = Some ([(''local_1'', ''x = 1'', ''8ff436def1451285'', 1),
            (''edge_1'', ''x = 2'', ''1431b986377b5430'', 2)], False, PENDING)"
  by (simp add: file_after_def sync_from_holder_def test_network_nodes register_file_def
      replicate_file_def sync_file_def Let_def get_primary_replica_def replicas_consistent_def
      CodeReplica_post_init_def sha256_16_known_def replica_view_def
      CodeReplicationManager_init_def)

section \<open>Paths between unconnected nodes (C2)\<close>

text \<open>
  Claim C2, at a failing input: the three registered nodes of the test network with no
  link at all. No sequence of links joins \<^verbatim>\<open>local_1\<close> to \<^verbatim>\<open>cloud_1\<close>, and
  \<open>find_best_path\<close> returns the one-element list \<^verbatim>\<open>['cloud_1']\<close>, which is neither empty
  nor a list that begins with the source.
\<close>

theorem find_best_path_unreachable_returns_target:
  "node_graph test_network = [(''local_1'', []), (''edge_1'', []), (''cloud_1'', [])]
   \<and> find_best_path [''local_1'', ''edge_1'', ''cloud_1''] ''local_1'' ''cloud_1'' test_network
       = Some [''cloud_1'']"
  by (simp add: find_best_path_def test_network_nodes neighbors_def reconstruct.simps
      test_network_def add_node_def MeshNetworkLayer_init_def test_node_def)

section \<open>Replica versions (C3)\<close>

lemma replicate_loop_keeps:
  "map_of reps n = Some r \<Longrightarrow> map_of (replicate_loop net digest tick primary k targets reps) n = Some r"
proof (induction targets arbitrary: k reps)
  case Nil
  then show ?case by simp
next
  case (Cons t ts)
  show ?case
  proof (cases "map_of (nodes net) t")
    case None
    with Cons show ?thesis by simp
  next
    case (Some nd)
    show ?thesis
    proof (cases "map_of reps t = None")
      case True
      with Cons.prems have "t \<noteq> n" by auto
      with Cons Some True show ?thesis by (simp add: map_of_update_other)
    next
      case False
      then obtain y where "map_of reps t = Some y" by auto
      with Cons Some show ?thesis by simp
    qed
  qed
qed

lemma sync_loop_version:
  "map_option CodeReplica.version (map_of (sync_loop src c h tick k reps) n)
     = map_option (\<lambda>r. if n \<noteq> src then CodeReplica.version r + 1 else CodeReplica.version r)
         (map_of reps n)"
  by (induction reps arbitrary: k) auto

lemma resolve_loop_version:
  "map_option CodeReplica.version (map_of (resolve_loop w win tick k reps) n)
     = map_option (\<lambda>r. if n \<noteq> w then CodeReplica.version win + 1 else CodeReplica.version r)
         (map_of reps n)"
  by (induction reps arbitrary: k) auto

lemma version_of_update:
  "version_of (s\<lparr>files := AList.update f md (files s)\<rparr>) fid n =
     (if fid = f then map_option CodeReplica.version (map_of (replicas md) n) else version_of s fid n)"
  by (simp add: version_of_def map_of_update_same map_of_update_other)

lemma register_file_version:
  assumes "register_file net digest now f pth c p s = Inr (b, s')"
    and "version_of s fid n = Some v"
  shows "version_of s' fid n = Some v"
proof (cases "map_of (files s) f")
  case None
  with assms(2) have ne: "fid \<noteq> f" by (auto simp: version_of_def)
  from assms(1) None obtain md where "s' = s\<lparr>files := AList.update f md (files s)\<rparr>"
    by (auto simp: register_file_def Let_def split: option.splits)
  with ne assms(2) show ?thesis by (simp add: version_of_update)
next
  case (Some a)
  with assms show ?thesis by (simp add: register_file_def)
qed

lemma replicate_file_version:
  assumes "version_of s fid n = Some v"
  shows "version_of (snd (replicate_file net digest tick f targets s)) fid n = Some v"
proof (cases "map_of (files s) f")
  case None
  then show ?thesis using assms by (simp add: replicate_file_def)
next
  case (Some md)
  show ?thesis
  proof (cases "get_primary_replica md")
    case None
    with Some assms show ?thesis by (simp add: replicate_file_def)
  next
    case (Some primary)
    show ?thesis
    proof (cases "fid = f")
      case True
      with assms \<open>map_of (files s) f = Some md\<close>
      obtain r where "map_of (replicas md) n = Some r" "CodeReplica.version r = v"
        by (auto simp: version_of_def)
      with True Some \<open>map_of (files s) f = Some md\<close> show ?thesis
        by (simp add: replicate_file_def version_of_update replicate_loop_keeps)
    next
      case False
      with Some \<open>map_of (files s) f = Some md\<close> assms show ?thesis
        by (simp add: replicate_file_def version_of_update)
    qed
  qed
qed

lemma sync_file_unknown:
  "map_of (files s) f = None \<Longrightarrow> sync_file digest tick uuid f c src s = (False, s)"
  by (simp add: sync_file_def)

lemma sync_file_known_files:
  assumes "map_of (files s) f = Some md"
  shows "files (snd (sync_file digest tick uuid f c src s)) =
     AList.update f
       (md\<lparr>replicas := sync_loop src c (digest c) tick 0 (replicas md),
           sync_state := (if replicas_consistent
                (md\<lparr>replicas := sync_loop src c (digest c) tick 0 (replicas md)\<rparr>)
              then SYNCED else PENDING)\<rparr>) (files s)"
  using assms unfolding sync_file_def Let_def by simp

lemma sync_file_version:
  assumes "version_of s fid n = Some v"
  shows "version_of (snd (sync_file digest tick uuid f c src s)) fid n
           = Some (if fid = f \<and> n \<noteq> src then v + 1 else v)"
proof (cases "map_of (files s) f")
  case None
  with assms have "fid \<noteq> f" by (auto simp: version_of_def)
  with None assms show ?thesis by (simp add: sync_file_unknown)
next
  case (Some md)
  note files = sync_file_known_files [OF Some, of digest tick uuid c src]
  show ?thesis
  proof (cases "fid = f")
    case True
    with assms Some obtain r where r: "map_of (replicas md) n = Some r" "CodeReplica.version r = v"
      by (auto simp: version_of_def)
    have "version_of (snd (sync_file digest tick uuid f c src s)) f n
          = map_option CodeReplica.version
              (map_of (sync_loop src c (digest c) tick 0 (replicas md)) n)"
      unfolding version_of_def files by (simp add: map_of_update_same)
    with r True show ?thesis by (simp add: sync_loop_version)
  next
    case False
    have "version_of (snd (sync_file digest tick uuid f c src s)) fid n = version_of s fid n"
      unfolding version_of_def files using False by (simp add: map_of_update_other)
    with False assms show ?thesis by simp
  qed
qed

lemma resolve_conflict_version:
  assumes "resolve_conflict tick f w s = (True, s')"
    and "version_of s f w = Some vw"
    and "version_of s fid n = Some v"
  shows "version_of s' fid n = Some (if fid = f \<and> n \<noteq> w then vw + 1 else v)"
proof -
  from assms(2) obtain md win where md: "map_of (files s) f = Some md"
    and win: "map_of (replicas md) w = Some win" "CodeReplica.version win = vw"
    by (auto simp: version_of_def split: option.splits)
  from assms(1) md win have s': "s' = s\<lparr>files := AList.update f
      (md\<lparr>replicas := resolve_loop w win tick 0 (replicas md), sync_state := SYNCED\<rparr>) (files s)\<rparr>"
    by (simp add: resolve_conflict_def)
  show ?thesis
  proof (cases "fid = f")
    case True
    with assms(3) md obtain r where "map_of (replicas md) n = Some r" "CodeReplica.version r = v"
      by (auto simp: version_of_def)
    with True win show ?thesis
      unfolding s' by (simp add: version_of_update resolve_loop_version)
  next
    case False
    with assms(3) show ?thesis unfolding s' by (simp add: version_of_update)
  qed
qed

lemma apply_op_version:
  assumes "apply_op net digest op s = Inr s'" "\<not> is_resolve op" "version_of s fid n = Some v"
  shows "\<exists>v'. version_of s' fid n = Some v' \<and> v \<le> v'"
proof (cases op)
  case (RegisterFile now f pth c p)
  show ?thesis
  proof (cases "register_file net digest now f pth c p s")
    case (Inl e)
    with assms(1) RegisterFile show ?thesis by simp
  next
    case (Inr r)
    with assms(1) RegisterFile have "register_file net digest now f pth c p s = Inr (fst r, s')"
      by (cases r) simp
    from register_file_version [OF this assms(3)] show ?thesis by simp
  qed
next
  case (ReplicateFile tick f targets)
  with assms(1) have "s' = snd (replicate_file net digest tick f targets s)" by simp
  with replicate_file_version [OF assms(3)] show ?thesis by simp
next
  case (SyncFile tick uuid f c src)
  with assms(1) have "s' = snd (sync_file digest tick uuid f c src s)" by simp
  with sync_file_version [OF assms(3), of digest tick uuid f c src] show ?thesis by simp
next
  case (ResolveConflict tick f w)
  with assms(2) show ?thesis by simp
qed

lemma run_ops_version:
  assumes "run_ops net digest ops s = Inr s'" "\<forall>op\<in>set ops. \<not> is_resolve op"
    "version_of s fid n = Some v"
  shows "\<exists>v'. version_of s' fid n = Some v' \<and> v \<le> v'"
  using assms
proof (induction ops arbitrary: s v)
  case Nil
  then show ?case by simp
next
  case (Cons op ops)
  show ?case
  proof (cases "apply_op net digest op s")
    case (Inl e)
    with Cons.prems(1) show ?thesis by simp
  next
    case (Inr s1)
    with Cons.prems(1) have rest: "run_ops net digest ops s1 = Inr s'" by simp
    from Cons.prems(2) have nr: "\<not> is_resolve op" and nrs: "\<forall>op\<in>set ops. \<not> is_resolve op"
      by simp_all
    from apply_op_version [OF Inr nr Cons.prems(3)]
    obtain v1 where v1: "version_of s1 fid n = Some v1" and le1: "v \<le> v1" by blast
    from Cons.IH [OF rest nrs v1]
    obtain v' where v': "version_of s' fid n = Some v'" and le2: "v1 \<le> v'" by blast
    from le1 le2 have "v \<le> v'" by simp
    with v' show ?thesis by blast
  qed
qed

theorem version_decreases_counterexample:
  "version_after test_network sha256_16_known two_syncs ''file_001'' ''edge_1'' = Some 3
   \<and> version_after test_network sha256_16_known
         (two_syncs @ [ResolveConflict (\<lambda>k. 30 + int k) ''file_001'' ''local_1''])
         ''file_001'' ''edge_1'' = Some 2"
  by (simp add: version_after_def two_syncs_def test_network_nodes register_file_def
      replicate_file_def sync_file_def resolve_conflict_def Let_def get_primary_replica_def
      CodeReplica_post_init_def version_of_def sha256_16_known_def
      CodeReplicationManager_init_def)

text \<open>
  Claim C3, amended. Registering, replicating and syncing never lower the version of a
  replica that exists: in a run of such operations that raises nothing, a replica present
  before is present after, with a version at least as large. A successful
  \<open>resolve_conflict f w\<close> leaves the winner's version and every other file's versions as
  they are, and sets the version of every other replica of \<open>f\<close> to the winner's version
  plus one, whatever it was before.
\<close>

theorem replica_version_by_operation:
  "(run_ops net digest ops s = Inr s' \<longrightarrow> \<not> list_ex is_resolve ops \<longrightarrow>
      version_of s fid n = Some v \<longrightarrow> (\<exists>v'. version_of s' fid n = Some v' \<and> v \<le> v'))
   \<and> (resolve_conflict tick f w s = (True, s'') \<longrightarrow> version_of s f w = Some vw \<longrightarrow>
      version_of s fid n = Some v \<longrightarrow>
      version_of s'' fid n = Some (if fid = f \<and> n \<noteq> w then vw + 1 else v))"
proof (intro conjI impI)
  assume "run_ops net digest ops s = Inr s'" and "\<not> list_ex is_resolve ops"
    and "version_of s fid n = Some v"
  moreover from \<open>\<not> list_ex is_resolve ops\<close> have "\<forall>op\<in>set ops. \<not> is_resolve op"
    by (simp add: list_ex_iff)
  ultimately show "\<exists>v'. version_of s' fid n = Some v' \<and> v \<le> v'"
    by (rule_tac run_ops_version)
next
  assume "resolve_conflict tick f w s = (True, s'')" and "version_of s f w = Some vw"
    and "version_of s fid n = Some v"
  then show "version_of s'' fid n = Some (if fid = f \<and> n \<noteq> w then vw + 1 else v)"
    by (rule resolve_conflict_version)
qed

theorem replica_version_by_operation_witness:
  "run_ops test_network sha256_16_known
       [SyncFile (\<lambda>k. 20 + int k) ''e1'' ''file_001'' ''x = 2'' ''local_1''] diverged_manager
     = Inr (snd (sync_file sha256_16_known (\<lambda>k. 20 + int k) ''e1'' ''file_001'' ''x = 2'' ''local_1''
                   diverged_manager))
   \<and> \<not> list_ex is_resolve [SyncFile (\<lambda>k. 20 + int k) ''e1'' ''file_001'' ''x = 2'' ''local_1'']
   \<and> version_of diverged_manager ''file_001'' ''edge_1'' = Some 1
   \<and> (\<exists>v'. version_of (snd (sync_file sha256_16_known (\<lambda>k. 20 + int k) ''e1'' ''file_001''
                   ''x = 2'' ''local_1'' diverged_manager)) ''file_001'' ''edge_1'' = Some v' \<and> 1 \<le> v')
   \<and> resolve_conflict (\<lambda>k. 30 + int k) ''file_001'' ''local_1'' diverged_manager
     = (True, snd (resolve_conflict (\<lambda>k. 30 + int k) ''file_001'' ''local_1'' diverged_manager))
   \<and> version_of diverged_manager ''file_001'' ''local_1'' = Some 1
   \<and> version_of (snd (resolve_conflict (\<lambda>k. 30 + int k) ''file_001'' ''local_1'' diverged_manager))
        ''file_001'' ''edge_1'' = Some 2"
proof -
  let ?sync = "SyncFile (\<lambda>k. 20 + int k) ''e1'' ''file_001'' ''x = 2'' ''local_1''"
  let ?s1 = "snd (sync_file sha256_16_known (\<lambda>k. 20 + int k) ''e1'' ''file_001'' ''x = 2''
                   ''local_1'' diverged_manager)"
  let ?s2 = "snd (resolve_conflict (\<lambda>k. 30 + int k) ''file_001'' ''local_1'' diverged_manager)"
  have h1: "run_ops test_network sha256_16_known [?sync] diverged_manager = Inr ?s1"
    by simp
  have h2: "\<not> list_ex is_resolve [?sync]" by simp
  have h3: "version_of diverged_manager ''file_001'' ''edge_1'' = Some 1"
    by (simp add: version_of_def diverged_manager_def diverged_file_def diverged_replica_def)
  have h4: "resolve_conflict (\<lambda>k. 30 + int k) ''file_001'' ''local_1'' diverged_manager = (True, ?s2)"
    by (simp add: resolve_conflict_def diverged_manager_def diverged_file_def)
  have h5: "version_of diverged_manager ''file_001'' ''local_1'' = Some 1"
    by (simp add: version_of_def diverged_manager_def diverged_file_def diverged_replica_def)
  note inst = replica_version_by_operation [of test_network sha256_16_known "[?sync]"
      diverged_manager ?s1 "''file_001''" "''edge_1''" 1 "\<lambda>k. 30 + int k" "''file_001''"
      "''local_1''" ?s2 1]
  from inst h1 h2 h3 have c1: "\<exists>v'. version_of ?s1 ''file_001'' ''edge_1'' = Some v' \<and> 1 \<le> v'"
    by blast
  from inst h4 h5 h3 have c2: "version_of ?s2 ''file_001'' ''edge_1'' = Some 2"
    by simp
  from h1 h2 h3 c1 h4 h5 c2 show ?thesis by blast
qed

section \<open>Planning for the quantum context (C4, C5)\<close>

lemma plan_execution_quantum:
  assumes "map_of (files rep) fid = Some md"
  shows "plan_execution uuid fid ExecutionContext.QUANTUM dev net rep =
     (let p = (case filter (\<lambda>n. MeshNode.node_type n = NodeType.QUANTUM) (map snd (nodes net)) of
                 [] \<Rightarrow> None | n # ns \<Rightarrow> Some (MeshNode.node_id n))
      in Some \<lparr>plan_id = uuid, ExecutionPlan.file_id = fid,
               steps = plan_steps p [] (map fst (replicas md)),
               target_context = ExecutionContext.QUANTUM, primary_node = p, backup_nodes = [],
               estimated_time_ms = 0, confidence = 0\<rparr>)"
  using assms by (simp add: plan_execution_def Let_def split: list.splits)

theorem quantum_plan_without_node_counterexample:
  "map_option primary_node
     (plan_execution ''p1'' ''file_001'' ExecutionContext.QUANTUM ''local_1'' test_network
        diverged_manager) = Some None"
  by (simp add: plan_execution_def Let_def diverged_manager_def test_network_nodes test_node_def)

text \<open>
  Claim C4, amended. For a registered file, when no node of the network has the quantum
  class, \<open>plan_execution\<close> in the quantum context raises nothing and returns a plan (not
  none): its primary node is none, it has no backup nodes, and its five steps name no
  node but, in the last one, the holders of the file's replicas.
\<close>

theorem quantum_plan_without_node:
  assumes "map_of (files rep) fid = Some md"
    and "\<not> list_ex (\<lambda>n. MeshNode.node_type n = NodeType.QUANTUM) (map snd (nodes net))"
  shows "\<exists>plan. plan_execution uuid fid ExecutionContext.QUANTUM dev net rep = Some plan
           \<and> ExecutionPlan.file_id plan = fid
           \<and> target_context plan = ExecutionContext.QUANTUM
           \<and> primary_node plan = None
           \<and> backup_nodes plan = []
           \<and> steps plan = [NodeStep 1 ''fetch_replica'' None, NodeStep 2 ''compile'' None,
                            NodeStep 3 ''execute'' None, NodeStep 4 ''verify'' None,
                            NodesStep 5 ''sync_results'' (map fst (replicas md))]"
proof -
  from assms(2) have "filter (\<lambda>n. MeshNode.node_type n = NodeType.QUANTUM) (map snd (nodes net)) = []"
    by (simp add: list_ex_iff filter_empty_conv)
  with plan_execution_quantum [OF assms(1), of uuid dev net] show ?thesis
    by (simp add: plan_steps_def)
qed

theorem quantum_plan_without_node_witness:
  "map_of (files diverged_manager) ''file_001'' = Some diverged_file
   \<and> \<not> list_ex (\<lambda>n. MeshNode.node_type n = NodeType.QUANTUM) (map snd (nodes test_network))
   \<and> (\<exists>plan. plan_execution ''p1'' ''file_001'' ExecutionContext.QUANTUM ''local_1'' test_network
                 diverged_manager = Some plan
           \<and> primary_node plan = None
           \<and> steps plan = [NodeStep 1 ''fetch_replica'' None, NodeStep 2 ''compile'' None,
                            NodeStep 3 ''execute'' None, NodeStep 4 ''verify'' None,
                            NodesStep 5 ''sync_results'' [''local_1'', ''edge_1'', ''cloud_1'']])"
proof -
  have h1: "map_of (files diverged_manager) ''file_001'' = Some diverged_file"
    by (simp add: diverged_manager_def)
  have h2: "\<not> list_ex (\<lambda>n. MeshNode.node_type n = NodeType.QUANTUM) (map snd (nodes test_network))"
    by (simp add: test_network_nodes test_node_def)
  have h3: "map fst (replicas diverged_file) = [''local_1'', ''edge_1'', ''cloud_1'']"
    by (simp add: diverged_file_def)
  from quantum_plan_without_node [OF h1 h2, of "''p1''" "''local_1''"] h1 h2 h3
  show ?thesis by auto
qed

text \<open>
  Claim C5, at a failing input: the only quantum node is offline, hence not available,
  and \<open>plan_execution\<close> in the quantum context still makes it the primary node.
\<close>

theorem quantum_plan_selects_unavailable_node:
  "map_option is_available (map_of (nodes quantum_offline_network) ''quantum_1'') = Some False
   \<and> map_option primary_node
       (plan_execution ''p1'' ''file_001'' ExecutionContext.QUANTUM ''local_1''
          quantum_offline_network diverged_manager) = Some (Some ''quantum_1'')"
  by (simp add: plan_execution_def Let_def diverged_manager_def quantum_offline_network_def
      add_node_def MeshNetworkLayer_init_def test_node_def is_available_def)

section \<open>Correctness of the shortest path (C6)\<close>

subsection \<open>Routes\<close>

lemma latency_of_nonneg: "nonneg_latencies self \<Longrightarrow> 0 \<le> latency_of self a b"
proof (cases "map_of (network_latencies self) (a, b)")
  case None
  then show ?thesis by (simp add: latency_of_def)
next
  case (Some l)
  assume "nonneg_latencies self"
  moreover from Some have "((a, b), l) \<in> set (network_latencies self)" by (rule map_of_SomeD)
  ultimately have "0 \<le> l" by (auto simp: nonneg_latencies_def list_all_iff)
  with Some show ?thesis by (simp add: latency_of_def)
qed

lemma is_route_snoc:
  "q \<noteq> [] \<Longrightarrow> is_route self (q @ [x]) = (is_route self q \<and> link self (last q) x)"
proof (induction self q rule: is_route.induct)
  case (1 self)
  then show ?case by simp
next
  case (2 self a)
  show ?case by (auto simp: link_def)
next
  case (3 self a b rest)
  then show ?case by auto
qed

lemma route_latency_snoc:
  "q \<noteq> [] \<Longrightarrow> route_latency self (q @ [x]) = route_latency self q + latency_of self (last q) x"
  by (induction self q rule: route_latency.induct) auto

lemma route_latency_nonneg: "nonneg_latencies self \<Longrightarrow> 0 \<le> route_latency self q"
proof (induction self q rule: route_latency.induct)
  case (1 self a b rest)
  with latency_of_nonneg [of self a b] show ?case by simp
qed simp_all

lemma is_route_hd: "is_route self q \<Longrightarrow> registered self (hd q)"
  by (induction self q rule: is_route.induct) (auto simp: link_def)

lemma is_route_last: "is_route self q \<Longrightarrow> registered self (last q)"
  by (induction self q rule: is_route.induct) (auto simp: link_def)

lemma registered_iff: "registered self n \<longleftrightarrow> n \<in> set (map fst (nodes self))"
  by (simp add: registered_def map_of_eq_None_iff)

subsection \<open>Order of distances\<close>

lemma dist_less_irrefl: "\<not> dist_less d d"
  by (cases d) auto

lemma dist_less_trans: "dist_less a b \<Longrightarrow> dist_less b c \<Longrightarrow> dist_less a c"
  by (cases a; cases b; cases c) auto

lemma dist_less_neg_trans: "\<not> dist_less a b \<Longrightarrow> \<not> dist_less b c \<Longrightarrow> \<not> dist_less a c"
  by (cases a; cases b; cases c) auto

lemma not_Finite_less: "\<not> dist_less (Finite a) d \<Longrightarrow> \<exists>b. d = Finite b \<and> b \<le> a"
  by (cases d) auto

lemma first_min_least:
  "v \<in> set (b # xs) \<Longrightarrow>
     \<not> dist_less (D v) (D (first_min (\<lambda>x y. dist_less (D x) (D y)) b xs))"
proof (induction xs arbitrary: b v)
  case Nil
  then show ?case by (simp add: dist_less_irrefl)
next
  case (Cons x xs)
  let ?lt = "\<lambda>x y. dist_less (D x) (D y)"
  let ?b' = "if ?lt x b then x else b"
  let ?m = "first_min ?lt ?b' xs"
  have m: "first_min ?lt b (x # xs) = ?m" by simp
  have best: "\<not> dist_less (D ?b') (D ?m)" using Cons.IH [of ?b' ?b'] by simp
  from Cons.prems consider "v = b" | "v = x" | "v \<in> set xs" by auto
  then have "\<not> dist_less (D v) (D ?m)"
  proof cases
    case 1
    show ?thesis
    proof (cases "?lt x b")
      case True
      with best have "\<not> dist_less (D x) (D ?m)" by simp
      with True show ?thesis unfolding 1 using dist_less_trans by blast
    next
      case False
      with best show ?thesis unfolding 1 by simp
    qed
  next
    case 2
    show ?thesis
    proof (cases "?lt x b")
      case True
      with best show ?thesis unfolding 2 by simp
    next
      case False
      with best have "\<not> dist_less (D b) (D ?m)" by simp
      with False show ?thesis unfolding 2 using dist_less_neg_trans by blast
    qed
  next
    case 3
    then have "v \<in> set (?b' # xs)" by simp
    then show ?thesis using Cons.IH [of v ?b'] by simp
  qed
  with m show ?case by simp
qed

subsection \<open>One pass over the neighbours\<close>

definition improves ::
  "MeshNetworkLayer \<Rightarrow> string \<Rightarrow> int \<Rightarrow> string list \<Rightarrow> string list \<Rightarrow> (string \<Rightarrow> distance) \<Rightarrow> string \<Rightarrow> bool" where
  "improves self c dc U nbs D x =
     (x \<in> set U \<and> x \<in> set nbs \<and> dist_less (Finite (dc + latency_of self c x)) (D x))"

lemma relax_neighbors_char:
  assumes "nonneg_latencies self" and "fst dp c = Finite dc"
  shows "fst (relax_neighbors self c U nbs dp) x =
           (if improves self c dc U nbs (fst dp) x then Finite (dc + latency_of self c x) else fst dp x)
       \<and> snd (relax_neighbors self c U nbs dp) x =
           (if improves self c dc U nbs (fst dp) x then Some c else snd dp x)"
  using assms(2)
proof (induction nbs arbitrary: dp)
  case Nil
  show ?case by (simp add: improves_def)
next
  case (Cons nb nbs)
  let ?new = "Finite (dc + latency_of self c nb)"
  have new: "dist_add (fst dp c) (latency_of self c nb) = ?new"
    using Cons.prems by simp
  show ?case
  proof (cases "nb \<in> set U \<and> dist_less ?new (fst dp nb)")
    case True
    define D1 where "D1 = (fst dp)(nb := ?new)"
    define P1 where "P1 = (snd dp)(nb := Some c)"
    have step: "relax_neighbors self c U (nb # nbs) dp = relax_neighbors self c U nbs (D1, P1)"
      using True new by (simp add: Let_def D1_def P1_def)
    have "nb \<noteq> c"
    proof
      assume "nb = c"
      with True Cons.prems have "dc + latency_of self c c < dc" by simp
      with latency_of_nonneg [OF assms(1), of c c] show False by simp
    qed
    with Cons.prems have c1: "fst (D1, P1) c = Finite dc" by (simp add: D1_def)
    from Cons.IH [OF c1]
    have ih: "fst (relax_neighbors self c U nbs (D1, P1)) x =
           (if improves self c dc U nbs D1 x then Finite (dc + latency_of self c x) else D1 x)"
      "snd (relax_neighbors self c U nbs (D1, P1)) x =
           (if improves self c dc U nbs D1 x then Some c else P1 x)"
      by simp_all
    show ?thesis
    proof (cases "x = nb")
      case xnb: True
      have "\<not> improves self c dc U nbs D1 x"
        using xnb by (simp add: improves_def D1_def)
      moreover have "improves self c dc U (nb # nbs) (fst dp) x"
        using True xnb by (simp add: improves_def)
      moreover have "D1 x = ?new" "P1 x = Some c" using xnb by (simp_all add: D1_def P1_def)
      ultimately show ?thesis unfolding step ih using xnb by simp
    next
      case False
      then have "improves self c dc U nbs D1 x = improves self c dc U (nb # nbs) (fst dp) x"
        by (auto simp: improves_def D1_def)
      moreover have "D1 x = fst dp x" "P1 x = snd dp x" using False by (simp_all add: D1_def P1_def)
      ultimately show ?thesis unfolding step ih by simp
    qed
  next
    case False
    have step: "relax_neighbors self c U (nb # nbs) dp = relax_neighbors self c U nbs dp"
      using False new by (auto simp: Let_def)
    have "improves self c dc U nbs (fst dp) x = improves self c dc U (nb # nbs) (fst dp) x"
      using False by (auto simp: improves_def)
    with Cons.IH [OF Cons.prems] show ?thesis unfolding step by simp
  qed
qed

subsection \<open>Chains of predecessors\<close>

text \<open>
  \<open>chain previous [v, u, \<dots>, s]\<close>: following \<open>previous\<close> from \<open>v\<close> visits exactly these
  nodes and then stops.
\<close>

fun chain :: "(string \<Rightarrow> string option) \<Rightarrow> string list \<Rightarrow> bool" where
  "chain P [] = False"
| "chain P [v] = (P v = None)"
| "chain P (v # u # r) = (P v = Some u \<and> chain P (u # r))"

lemma chain_cong_on: "\<forall>x\<in>set l. P' x = P x \<Longrightarrow> chain P' l = chain P l"
  by (induction P l rule: chain.induct) auto

lemma reconstruct_chain:
  "chain P (v # r) \<Longrightarrow> reconstruct P (Some v) acc = Some (acc @ v # r)"
proof (induction r arbitrary: v acc)
  case Nil
  then have "P v = None" by simp
  then show ?case
    by (subst reconstruct.simps, simp, subst reconstruct.simps, simp)
next
  case (Cons u r)
  then have pv: "P v = Some u" and rest: "chain P (u # r)" by simp_all
  from Cons.IH [OF rest, of "acc @ [v]"] pv show ?case
    by (subst reconstruct.simps) simp
qed

subsection \<open>The loop invariant\<close>

definition inv_base ::
  "MeshNetworkLayer \<Rightarrow> string \<Rightarrow> string list \<Rightarrow> (string \<Rightarrow> distance) \<Rightarrow> (string \<Rightarrow> string option) \<Rightarrow> bool" where
  "inv_base self source U D P =
     (distinct U \<and> (\<forall>v\<in>set U. registered self v) \<and> D source = Finite 0 \<and> P source = None
      \<and> (\<forall>v d. D v = Finite d \<longrightarrow> 0 \<le> d))"

definition inv_chain ::
  "MeshNetworkLayer \<Rightarrow> string \<Rightarrow> string list \<Rightarrow> (string \<Rightarrow> distance) \<Rightarrow> (string \<Rightarrow> string option) \<Rightarrow> bool" where
  "inv_chain self source U D P =
     (\<forall>v d. D v = Finite d \<longrightarrow>
        (\<exists>r. chain P (v # r) \<and> set r \<inter> set U = {} \<and> last (v # r) = source
            \<and> is_route self (rev (v # r)) \<and> route_latency self (rev (v # r)) = d))"

definition inv_settled :: "MeshNetworkLayer \<Rightarrow> string list \<Rightarrow> (string \<Rightarrow> distance) \<Rightarrow> bool" where
  "inv_settled self U D = (\<forall>u. registered self u \<and> u \<notin> set U \<longrightarrow> (\<exists>du. D u = Finite du))"

definition inv_sorted :: "MeshNetworkLayer \<Rightarrow> string list \<Rightarrow> (string \<Rightarrow> distance) \<Rightarrow> bool" where
  "inv_sorted self U D =
     (\<forall>u v. registered self u \<and> u \<notin> set U \<and> v \<in> set U \<longrightarrow> \<not> dist_less (D v) (D u))"

definition inv_relaxed :: "MeshNetworkLayer \<Rightarrow> string list \<Rightarrow> (string \<Rightarrow> distance) \<Rightarrow> bool" where
  "inv_relaxed self U D =
     (\<forall>u v du. registered self u \<and> u \<notin> set U \<and> D u = Finite du \<and> link self u v \<longrightarrow>
        (\<exists>dv. D v = Finite dv \<and> dv \<le> du + latency_of self u v))"

definition dinv ::
  "MeshNetworkLayer \<Rightarrow> string \<Rightarrow> string list \<Rightarrow> (string \<Rightarrow> distance) \<Rightarrow> (string \<Rightarrow> string option) \<Rightarrow> bool" where
  "dinv self source U D P =
     (inv_base self source U D P \<and> inv_chain self source U D P \<and> inv_settled self U D
      \<and> inv_sorted self U D \<and> inv_relaxed self U D)"

lemma dinv_initial:
  assumes "registered self source" "distinct order" "set order = {n. registered self n}"
  shows "dinv self source order ((\<lambda>n. Infinity)(source := Finite 0)) (\<lambda>n. None)"
proof -
  let ?D = "(\<lambda>n. Infinity)(source := Finite 0)"
  have "inv_base self source order ?D (\<lambda>n. None)"
    using assms by (auto simp: inv_base_def split: if_splits)
  moreover have "inv_chain self source order ?D (\<lambda>n. None)"
    unfolding inv_chain_def
  proof (intro allI impI)
    fix v d assume "?D v = Finite d"
    then have "v = source" "d = 0" by (auto split: if_splits)
    with assms(1) have "chain (\<lambda>n. None) (v # []) \<and> set [] \<inter> set order = {}
        \<and> last (v # []) = source \<and> is_route self (rev (v # []))
        \<and> route_latency self (rev (v # [])) = d" by simp
    then show "\<exists>r. chain (\<lambda>n. None) (v # r) \<and> set r \<inter> set order = {} \<and> last (v # r) = source
        \<and> is_route self (rev (v # r)) \<and> route_latency self (rev (v # r)) = d" by blast
  qed
  moreover have "inv_settled self order ?D" using assms(3) by (simp add: inv_settled_def)
  moreover have "inv_sorted self order ?D" using assms(3) by (simp add: inv_sorted_def)
  moreover have "inv_relaxed self order ?D" using assms(3) by (auto simp: inv_relaxed_def)
  ultimately show ?thesis by (simp add: dinv_def)
qed

text \<open>
  Every route from the source meets a node that is its end or is still unvisited, and
  whose recorded distance is at most the latency of the route.
\<close>

lemma route_lower_bound:
  assumes nn: "nonneg_latencies self" and base: "inv_base self source U D P"
    and relaxed: "inv_relaxed self U D"
    and route: "is_route self q" "hd q = source"
  shows "\<exists>y dy. (y = last q \<or> y \<in> set U) \<and> D y = Finite dy \<and> dy \<le> route_latency self q"
proof -
  from route(1) have "q \<noteq> []" by auto
  then show ?thesis using route
  proof (induction q rule: rev_nonempty_induct)
    case (single x)
    then have "x = source" by simp
    with base have "D x = Finite 0" by (simp add: inv_base_def)
    then show ?case by auto
  next
    case (snoc x q)
    from snoc.hyps snoc.prems have rq: "is_route self q" and lk: "link self (last q) x"
      and hq: "hd q = source"
      by (simp_all add: is_route_snoc)
    have lat: "route_latency self (q @ [x]) = route_latency self q + latency_of self (last q) x"
      using snoc.hyps by (rule route_latency_snoc)
    have w: "0 \<le> latency_of self (last q) x" using nn by (rule latency_of_nonneg)
    from snoc.IH [OF rq hq] obtain y dy where
      y: "y = last q \<or> y \<in> set U" "D y = Finite dy" "dy \<le> route_latency self q" by blast
    show ?case
    proof (cases "y \<in> set U")
      case True
      with y w lat show ?thesis by auto
    next
      case False
      with y(1) have yl: "y = last q" by simp
      from lk have "registered self (last q)" by (simp add: link_def)
      with relaxed False yl y(2) lk obtain dv where
        "D x = Finite dv" "dv \<le> dy + latency_of self (last q) x"
        unfolding inv_relaxed_def by blast
      with y(3) lat show ?thesis by auto
    qed
  qed
qed

lemma improves_facts:
  assumes nn: "nonneg_latencies self" and base: "inv_base self source U D P"
    and cU: "c \<in> set U" and dc: "D c = Finite dc"
    and imp: "improves self c dc U (neighbors self c) D x"
  shows "x \<in> set U" "x \<noteq> c" "x \<noteq> source" "link self c x"
proof -
  note w = latency_of_nonneg [OF nn, of c x]
  from imp show xU: "x \<in> set U" by (simp add: improves_def)
  from imp have less: "dist_less (Finite (dc + latency_of self c x)) (D x)"
    and nb: "x \<in> set (neighbors self c)" by (simp_all add: improves_def)
  show "x \<noteq> c"
  proof
    assume "x = c"
    with less dc w show False by simp
  qed
  from base dc have "0 \<le> dc" by (auto simp: inv_base_def)
  show "x \<noteq> source"
  proof
    assume "x = source"
    with base have "D x = Finite 0" by (simp add: inv_base_def)
    with less w \<open>0 \<le> dc\<close> show False by simp
  qed
  from base cU xU have "registered self c" "registered self x" by (auto simp: inv_base_def)
  with nb show "link self c x" by (simp add: link_def)
qed

lemma dinv_step:
  assumes nn: "nonneg_latencies self" and inv: "dinv self source U D P"
    and cU: "c \<in> set U" and cmin: "\<forall>v\<in>set U. \<not> dist_less (D v) (D c)"
    and dc: "D c = Finite dc"
    and res: "relax_neighbors self c U (neighbors self c) (D, P) = (D', P')"
  shows "dinv self source (removeAll c U) D' P'"
proof -
  let ?imp = "improves self c dc U (neighbors self c) D"
  let ?U' = "removeAll c U"
  from inv have base: "inv_base self source U D P" and ch: "inv_chain self source U D P"
    and settled: "inv_settled self U D" and sorted: "inv_sorted self U D"
    and relaxed: "inv_relaxed self U D"
    by (simp_all add: dinv_def)
  have D': "D' x = (if ?imp x then Finite (dc + latency_of self c x) else D x)"
    and P': "P' x = (if ?imp x then Some c else P x)" for x
    using relax_neighbors_char [OF nn, of "(D, P)" c dc U "neighbors self c" x] dc res by simp_all
  note facts = improves_facts [OF nn base cU dc]
  have regc: "registered self c" using base cU by (auto simp: inv_base_def)
  have dc0: "0 \<le> dc" using base dc by (auto simp: inv_base_def)
  have w: "0 \<le> latency_of self c x" for x using nn by (rule latency_of_nonneg)
  have Dc: "D' c = Finite dc" using facts(2) [of c] dc by (auto simp: D')
  have keepD: "x \<notin> set U \<Longrightarrow> D' x = D x" for x using facts(1) [of x] by (auto simp: D')
  have keepP: "x \<notin> set U \<Longrightarrow> P' x = P x" for x using facts(1) [of x] by (auto simp: P')
  have Pc: "P' c = P c" using facts(2) [of c] by (auto simp: P')
  have setU': "set ?U' = set U - {c}" by auto

  have b': "inv_base self source ?U' D' P'"
  proof -
    have "distinct ?U'" using base by (simp add: inv_base_def distinct_removeAll)
    moreover have "\<forall>v\<in>set ?U'. registered self v" using base by (auto simp: inv_base_def)
    moreover have "D' source = Finite 0" "P' source = None"
      using facts(3) [of source] base by (auto simp: D' P' inv_base_def)
    moreover have "\<forall>v d. D' v = Finite d \<longrightarrow> 0 \<le> d"
    proof (intro allI impI)
      fix v d assume "D' v = Finite d"
      then show "0 \<le> d" using base dc0 w [of v]
        by (auto simp: D' inv_base_def split: if_splits)
    qed
    ultimately show ?thesis by (simp add: inv_base_def)
  qed

  from ch dc obtain rc where rc: "chain P (c # rc)" "set rc \<inter> set U = {}"
    "last (c # rc) = source" "is_route self (rev (c # rc))" "route_latency self (rev (c # rc)) = dc"
    unfolding inv_chain_def by blast
  have same_on: "\<forall>x\<in>set (c # r). P' x = P x" if "set r \<inter> set U = {}" for r
    using that Pc keepP by auto
  have c': "inv_chain self source ?U' D' P'"
    unfolding inv_chain_def
  proof (intro allI impI)
    fix v d assume fin: "D' v = Finite d"
    show "\<exists>r. chain P' (v # r) \<and> set r \<inter> set ?U' = {} \<and> last (v # r) = source
        \<and> is_route self (rev (v # r)) \<and> route_latency self (rev (v # r)) = d"
    proof (cases "?imp v")
      case True
      with fin have d: "d = dc + latency_of self c v" by (simp add: D')
      from True have pv: "P' v = Some c" by (simp add: P')
      have "chain P' (c # rc)" using chain_cong_on [OF same_on [OF rc(2)]] rc(1) by simp
      with pv have 1: "chain P' (v # c # rc)" by simp
      have 2: "set (c # rc) \<inter> set ?U' = {}" using rc(2) by auto
      have 3: "last (v # c # rc) = source" using rc(3) by simp
      have ne: "rev (c # rc) \<noteq> []" by simp
      have lastc: "last (rev (c # rc)) = c" by simp
      have 4: "is_route self (rev (v # c # rc))"
        using is_route_snoc [OF ne, of self v] rc(4) facts(4) [OF True] lastc by simp
      have 5: "route_latency self (rev (v # c # rc)) = d"
        using route_latency_snoc [OF ne, of self v] rc(5) lastc d by simp
      from 1 2 3 4 5 show ?thesis by blast
    next
      case False
      with fin have "D v = Finite d" by (simp add: D')
      with ch obtain r where r: "chain P (v # r)" "set r \<inter> set U = {}" "last (v # r) = source"
        "is_route self (rev (v # r))" "route_latency self (rev (v # r)) = d"
        unfolding inv_chain_def by blast
      have "P' v = P v" using False by (simp add: P')
      moreover have "\<forall>x\<in>set r. P' x = P x" using r(2) keepP by auto
      ultimately have "chain P' (v # r)" using chain_cong_on [of "v # r" P' P] r(1) by simp
      moreover have "set r \<inter> set ?U' = {}" using r(2) by auto
      ultimately show ?thesis using r(3,4,5) by blast
    qed
  qed

  have visited': "registered self u \<and> u \<notin> set ?U' \<longleftrightarrow> (registered self u \<and> u \<notin> set U) \<or> u = c" for u
    using regc by auto

  have s': "inv_settled self ?U' D'"
    unfolding inv_settled_def
  proof (intro allI impI)
    fix u assume "registered self u \<and> u \<notin> set ?U'"
    then consider "registered self u \<and> u \<notin> set U" | "u = c" using visited' by blast
    then show "\<exists>du. D' u = Finite du"
    proof cases
      case 1
      with settled keepD [of u] show ?thesis by (auto simp: inv_settled_def)
    next
      case 2
      with Dc show ?thesis by simp
    qed
  qed

  have bound: "\<not> dist_less (D' v) (Finite dc)" if "v \<in> set U" for v
  proof (cases "?imp v")
    case True
    then show ?thesis using w [of v] by (simp add: D')
  next
    case False
    with cmin that dc show ?thesis by (simp add: D')
  qed

  have o': "inv_sorted self ?U' D'"
    unfolding inv_sorted_def
  proof (intro allI impI)
    fix u v assume a: "registered self u \<and> u \<notin> set ?U' \<and> v \<in> set ?U'"
    then have vU: "v \<in> set U" by auto
    from a consider "registered self u \<and> u \<notin> set U" | "u = c" using visited' by blast
    then show "\<not> dist_less (D' v) (D' u)"
    proof cases
      case 1
      with sorted cU have "\<not> dist_less (D c) (D u)" by (auto simp: inv_sorted_def)
      with dc have "\<not> dist_less (Finite dc) (D' u)" using keepD [of u] 1 by simp
      with bound [OF vU] show ?thesis by (rule dist_less_neg_trans)
    next
      case 2
      with bound [OF vU] Dc show ?thesis by simp
    qed
  qed

  have r': "inv_relaxed self ?U' D'"
    unfolding inv_relaxed_def
  proof (intro allI impI)
    fix u v du
    assume a: "registered self u \<and> u \<notin> set ?U' \<and> D' u = Finite du \<and> link self u v"
    then have lk: "link self u v" and du: "D' u = Finite du" by simp_all
    from a consider "registered self u \<and> u \<notin> set U" | "u = c" using visited' by blast
    then show "\<exists>dv. D' v = Finite dv \<and> dv \<le> du + latency_of self u v"
    proof cases
      case 1
      with du keepD [of u] have "D u = Finite du" by simp
      with relaxed 1 lk obtain dv where dv: "D v = Finite dv" "dv \<le> du + latency_of self u v"
        unfolding inv_relaxed_def by blast
      show ?thesis
      proof (cases "?imp v")
        case True
        then have "dist_less (Finite (dc + latency_of self c v)) (D v)" by (simp add: improves_def)
        with dv True show ?thesis by (simp add: D')
      next
        case False
        with dv show ?thesis by (simp add: D')
      qed
    next
      case 2
      with du Dc have [simp]: "du = dc" by simp
      show ?thesis
      proof (cases "v \<in> set U")
        case True
        from lk 2 have nb: "v \<in> set (neighbors self c)" by (simp add: link_def)
        show ?thesis
        proof (cases "?imp v")
          case True
          then show ?thesis using 2 by (simp add: D')
        next
          case False
          with True nb have "\<not> dist_less (Finite (dc + latency_of self c v)) (D v)"
            by (simp add: improves_def)
          from not_Finite_less [OF this] False 2 show ?thesis by (auto simp: D')
        qed
      next
        case False
        from lk have "registered self v" by (simp add: link_def)
        with False settled obtain dv where dv: "D v = Finite dv" by (auto simp: inv_settled_def)
        from sorted \<open>registered self v\<close> False cU have "\<not> dist_less (D c) (D v)"
          by (auto simp: inv_sorted_def)
        with dc dv have "dv \<le> dc" by simp
        with dv keepD [OF False] w [of v] 2 show ?thesis by auto
      qed
    qed
  qed
  from b' c' s' o' r' show ?thesis by (simp add: dinv_def)
qed

lemma dijkstra_loop_post:
  assumes nn: "nonneg_latencies self"
  shows "dinv self source U D P \<Longrightarrow> target \<in> set U \<Longrightarrow>
     \<exists>U' D' P'. dijkstra_loop self target U (D, P) = (D', P') \<and> dinv self source U' D' P'
        \<and> target \<in> set U' \<and> (\<forall>v\<in>set U'. \<not> dist_less (D' v) (D' target))"
proof (induction "length U" arbitrary: U D P rule: less_induct)
  case less
  from less.prems(2) obtain u us where U: "U = u # us" by (cases U) auto
  let ?c = "first_min (\<lambda>a b. dist_less (D a) (D b)) u us"
  have cU: "?c \<in> set U" unfolding U by (rule first_min_mem)
  have cmin: "\<forall>v\<in>set U. \<not> dist_less (D v) (D ?c)"
    unfolding U using first_min_least [of _ u us D] by blast
  show ?case
  proof (cases "D ?c")
    case Infinity
    then have res: "dijkstra_loop self target U (D, P) = (D, P)" unfolding U
      by (subst dijkstra_loop.simps) (simp del: dijkstra_loop.simps add: Let_def)
    have "D v = Infinity" if "v \<in> set U" for v
    proof (cases "D v")
      case (Finite a)
      with cmin that Infinity show ?thesis by auto
    qed simp
    then have "\<forall>v\<in>set U. \<not> dist_less (D v) (D target)" by simp
    with res less.prems show ?thesis by blast
  next
    case (Finite dc)
    show ?thesis
    proof (cases "?c = target")
      case True
      with Finite have res: "dijkstra_loop self target U (D, P) = (D, P)" unfolding U
        by (subst dijkstra_loop.simps) (simp del: dijkstra_loop.simps add: Let_def)
      from cmin True have "\<forall>v\<in>set U. \<not> dist_less (D v) (D target)" by simp
      with res less.prems show ?thesis by blast
    next
      case False
      obtain D1 P1 where rel: "relax_neighbors self ?c U (neighbors self ?c) (D, P) = (D1, P1)"
        by (cases "relax_neighbors self ?c U (neighbors self ?c) (D, P)") auto
      have res: "dijkstra_loop self target U (D, P)
                   = dijkstra_loop self target (removeAll ?c U) (D1, P1)"
        using Finite False rel unfolding U
        by (subst dijkstra_loop.simps) (simp del: dijkstra_loop.simps removeAll.simps add: Let_def)
      have inv1: "dinv self source (removeAll ?c U) D1 P1"
        using nn less.prems(1) cU cmin Finite rel by (rule dinv_step)
      have t1: "target \<in> set (removeAll ?c U)" using less.prems(2) False by simp
      have "length (removeAll ?c U) < length U" using cU by (rule length_removeAll_less)
      from less.hyps [OF this inv1 t1] show ?thesis unfolding res .
    qed
  qed
qed

subsection \<open>The result\<close>

text \<open>
  Claim C6. Let every recorded latency be non-negative, let \<open>order\<close> enumerate the
  registered node ids (in any order: the iteration order of the set \<^verbatim>\<open>unvisited\<close>), and
  let some route lead from \<open>source\<close> to \<open>target\<close>. Then \<open>find_best_path\<close> returns, and what
  it returns is a route from \<open>source\<close> to \<open>target\<close> (consecutive nodes are linked) whose
  latency is at most the latency of every route from \<open>source\<close> to \<open>target\<close>.
\<close>

theorem find_best_path_shortest:
  assumes nn: "nonneg_latencies self"
    and order: "distinct order" "set order = set (map fst (nodes self))"
    and reach: "is_route self q" "hd q = source" "last q = target"
  shows "\<exists>p. find_best_path order source target self = Some p
           \<and> is_route self p \<and> hd p = source \<and> last p = target
           \<and> (\<forall>q'. is_route self q' \<and> hd q' = source \<and> last q' = target
                  \<longrightarrow> route_latency self p \<le> route_latency self q')"
proof -
  from reach have rs: "registered self source" and rt: "registered self target"
    using is_route_hd is_route_last by blast+
  then have known: "map_of (nodes self) source \<noteq> None" "map_of (nodes self) target \<noteq> None"
    by (simp_all add: registered_def)
  show ?thesis
  proof (cases "source = target")
    case True
    with known have "find_best_path order source target self = Some [source]"
      by (simp add: find_best_path_def)
    moreover have "is_route self [source]" using rs by simp
    moreover have "route_latency self [source] \<le> route_latency self q'" for q'
      using route_latency_nonneg [OF nn, of q'] by simp
    ultimately show ?thesis using True by auto
  next
    case False
    let ?D0 = "(\<lambda>n. Infinity)(source := Finite 0)"
    let ?P0 = "\<lambda>n::string. None::string option"
    from order(2) have ord: "set order = {n. registered self n}"
      by (auto simp: registered_iff)
    from rs order(1) ord have "dinv self source order ?D0 ?P0" by (rule dinv_initial)
    moreover from rt ord have "target \<in> set order" by simp
    ultimately obtain U' D' P' where
      loop: "dijkstra_loop self target order (?D0, ?P0) = (D', P')"
      and inv: "dinv self source U' D' P'" and tU: "target \<in> set U'"
      and tmin: "\<forall>v\<in>set U'. \<not> dist_less (D' v) (D' target)"
      using dijkstra_loop_post [OF nn] by blast
    from inv have base: "inv_base self source U' D' P'" and ch: "inv_chain self source U' D' P'"
      and relaxed: "inv_relaxed self U' D'" by (simp_all add: dinv_def)
    have lower: "\<exists>dt. D' target = Finite dt \<and> dt \<le> route_latency self q'"
      if "is_route self q'" "hd q' = source" "last q' = target" for q'
    proof -
      from route_lower_bound [OF nn base relaxed that(1,2)] that(3)
      obtain y dy where y: "y = target \<or> y \<in> set U'" "D' y = Finite dy"
        "dy \<le> route_latency self q'" by auto
      from y(1) tmin have "\<not> dist_less (D' y) (D' target)" by (auto simp: dist_less_irrefl)
      with y(2) have "\<not> dist_less (Finite dy) (D' target)" by simp
      from not_Finite_less [OF this] y(3) show ?thesis by auto
    qed
    from lower [OF reach] obtain dt where dt: "D' target = Finite dt" by blast
    with ch obtain r where r: "chain P' (target # r)" "last (target # r) = source"
      "is_route self (rev (target # r))" "route_latency self (rev (target # r)) = dt"
      unfolding inv_chain_def by blast
    let ?p = "rev (target # r)"
    from reconstruct_chain [OF r(1), of "[]"]
    have "reconstruct P' (Some target) [] = Some (target # r)" by simp
    with known False loop have 1: "find_best_path order source target self = Some ?p"
      by (simp add: find_best_path_def)
    have "hd ?p = last (target # r)" by (rule hd_rev)
    with r(2) have 2: "hd ?p = source" by (simp only:)
    have 3: "last ?p = target" by simp
    have 4: "route_latency self ?p \<le> route_latency self q'"
      if "is_route self q' \<and> hd q' = source \<and> last q' = target" for q'
      using lower [of q'] that dt r(4) by auto
    from 1 r(3) 2 3 4 show ?thesis by blast
  qed
qed

lemma find_best_path_linked_network:
  "find_best_path [''cloud_1'', ''edge_1'', ''local_1''] ''local_1'' ''cloud_1'' linked_network
     = Some [''local_1'', ''edge_1'', ''cloud_1'']"
  by (simp add: find_best_path_def linked_network_fields test_network_nodes neighbors_def
      latency_of_def reconstruct.simps Let_def)

theorem find_best_path_shortest_witness:
  "nonneg_latencies linked_network
   \<and> distinct [''cloud_1'', ''edge_1'', ''local_1'']
   \<and> set [''cloud_1'', ''edge_1'', ''local_1''] = set (map fst (nodes linked_network))
   \<and> is_route linked_network [''local_1'', ''cloud_1'']
   \<and> (\<exists>p. find_best_path [''cloud_1'', ''edge_1'', ''local_1''] ''local_1'' ''cloud_1''
              linked_network = Some p
         \<and> is_route linked_network p \<and> hd p = ''local_1'' \<and> last p = ''cloud_1''
         \<and> (\<forall>q'. is_route linked_network q' \<and> hd q' = ''local_1'' \<and> last q' = ''cloud_1''
                \<longrightarrow> route_latency linked_network p \<le> route_latency linked_network q'))"
proof -
  have h1: "nonneg_latencies linked_network"
    by (simp add: nonneg_latencies_def linked_network_fields)
  have h2: "distinct [''cloud_1'', ''edge_1'', ''local_1'']" by simp
  have h3: "set [''cloud_1'', ''edge_1'', ''local_1''] = set (map fst (nodes linked_network))"
    by (auto simp: linked_network_fields test_network_nodes)
  have h4: "is_route linked_network [''local_1'', ''cloud_1'']"
    by (simp add: link_def registered_def neighbors_def linked_network_fields test_network_nodes)
  have h5: "hd [''local_1'', ''cloud_1''] = ''local_1''" "last [''local_1'', ''cloud_1''] = ''cloud_1''"
    by simp_all
  from find_best_path_shortest [OF h1 h2 h3 h4 h5] h1 h2 h3 h4 show ?thesis by blast
qed

section \<open>Conflict resolution twice (C7)\<close>

lemma resolve_loop_winner:
  "map_of (resolve_loop w win tick k reps) w = map_of reps w"
  by (induction reps arbitrary: k) auto

lemma resolve_loop_idem:
  "map replica_view (resolve_loop w win tick' k' (resolve_loop w win tick k reps))
     = map replica_view (resolve_loop w win tick k reps)"
  by (induction reps arbitrary: k k') (auto simp: replica_view_def)

text \<open>
  Claim C7. When \<open>fid\<close> is registered and \<open>w\<close> holds a replica of it, two calls of
  \<open>resolve_conflict fid w\<close> in a row both succeed, and after the second call every
  replica has the content and the hash (and also the version) it had after the first.
\<close>

theorem resolve_conflict_idempotent:
  assumes "map_of (files s) fid = Some md"
    and "map_of (replicas md) w = Some winning"
  shows "\<exists>s1 s2 md1 md2.
           resolve_conflict tick1 fid w s = (True, s1)
         \<and> resolve_conflict tick2 fid w s1 = (True, s2)
         \<and> map_of (files s1) fid = Some md1
         \<and> map_of (files s2) fid = Some md2
         \<and> map replica_view (replicas md2) = map replica_view (replicas md1)"
proof -
  let ?r1 = "resolve_loop w winning tick1 0 (replicas md)"
  let ?md1 = "md\<lparr>replicas := ?r1, sync_state := SYNCED\<rparr>"
  let ?s1 = "s\<lparr>files := AList.update fid ?md1 (files s)\<rparr>"
  let ?r2 = "resolve_loop w winning tick2 0 ?r1"
  let ?md2 = "?md1\<lparr>replicas := ?r2, sync_state := SYNCED\<rparr>"
  let ?s2 = "?s1\<lparr>files := AList.update fid ?md2 (files ?s1)\<rparr>"
  have first: "resolve_conflict tick1 fid w s = (True, ?s1)"
    using assms by (simp add: resolve_conflict_def)
  have f1: "map_of (files ?s1) fid = Some ?md1"
    by (simp add: map_of_update_same)
  have w1: "map_of (replicas ?md1) w = Some winning"
    using assms(2) by (simp add: resolve_loop_winner)
  have second: "resolve_conflict tick2 fid w ?s1 = (True, ?s2)"
    using f1 w1 by (simp add: resolve_conflict_def)
  have f2: "map_of (files ?s2) fid = Some ?md2"
    by (simp add: map_of_update_same)
  have "map replica_view (replicas ?md2) = map replica_view (replicas ?md1)"
    by (simp add: resolve_loop_idem)
  with first second f1 f2 show ?thesis by blast
qed

theorem resolve_conflict_idempotent_witness:
  "map_of (files diverged_manager) ''file_001'' = Some diverged_file
   \<and> map_of (replicas diverged_file) ''local_1''
       = Some (diverged_replica ''local_1'' NodeType.LOCAL ''v1'' 10)
   \<and> (\<exists>s1 s2 md1 md2.
           resolve_conflict (\<lambda>k. 20 + int k) ''file_001'' ''local_1'' diverged_manager = (True, s1)
         \<and> resolve_conflict (\<lambda>k. 30 + int k) ''file_001'' ''local_1'' s1 = (True, s2)
         \<and> map_of (files s1) ''file_001'' = Some md1
         \<and> map_of (files s2) ''file_001'' = Some md2
         \<and> map replica_view (replicas md2) = map replica_view (replicas md1))"
proof -
  have h1: "map_of (files diverged_manager) ''file_001'' = Some diverged_file"
    by (simp add: diverged_manager_def)
  have h2: "map_of (replicas diverged_file) ''local_1''
              = Some (diverged_replica ''local_1'' NodeType.LOCAL ''v1'' 10)"
    by (simp add: diverged_file_def)
  from resolve_conflict_idempotent [OF h1 h2] h1 h2 show ?thesis by blast
qed

section \<open>Registering a file on an unknown node (C8)\<close>

lemma register_file_unknown_node:
  "map_of (files s) fid = None \<Longrightarrow> map_of (nodes net) p = None \<Longrightarrow>
     register_file net digest now fid pth c p s = Inl (KeyError p)"
  by (simp add: register_file_def)

text \<open>
  Claim C8, at a failing input: on the test network, registering the fresh file
  \<^verbatim>\<open>file_001\<close> with the primary node \<^verbatim>\<open>ghost\<close>, which is not a node of the network,
  raises \<^verbatim>\<open>KeyError('ghost')\<close>; so does the coordinator's \<open>add_file\<close>.
\<close>

theorem register_file_unknown_node_raises:
  "register_file test_network sha256_16_known 1 ''file_001'' ''test.py'' ''x = 1'' ''ghost''
       CodeReplicationManager_init = Inl (KeyError ''ghost'')
   \<and> add_file sha256_16_known md5_8 1 tick uuids ''test.py'' ''x = 1'' ''ghost''
       ((MeshIDECoordinator_init cid)\<lparr>network := test_network\<rparr>) = Inl (KeyError ''ghost'')"
  by (simp add: add_file_def MeshIDECoordinator_init_def Let_def register_file_unknown_node
      CodeReplicationManager_init_def test_network_nodes)

section \<open>The audit record of a sync (C9)\<close>

lemma max_by_timestamp_mem: "max_by_timestamp b rs \<in> set (b # rs)"
  by (induction rs arbitrary: b) auto

lemma max_by_timestamp_ge_best:
  "CodeReplica.timestamp b \<le> CodeReplica.timestamp (max_by_timestamp b rs)"
proof (induction rs arbitrary: b)
  case Nil
  show ?case by simp
next
  case (Cons r rs)
  show ?case
  proof (cases "CodeReplica.timestamp b < CodeReplica.timestamp r")
    case True
    with Cons [of r] show ?thesis by simp
  next
    case False
    with Cons [of b] show ?thesis by simp
  qed
qed

lemma max_by_timestamp_ge:
  "x \<in> set (b # rs) \<Longrightarrow> CodeReplica.timestamp x \<le> CodeReplica.timestamp (max_by_timestamp b rs)"
proof (induction rs arbitrary: b)
  case Nil
  then show ?case by simp
next
  case (Cons r rs)
  let ?b' = "if CodeReplica.timestamp b < CodeReplica.timestamp r then r else b"
  from Cons.prems consider "x = b" | "x = r" | "x \<in> set rs" by auto
  then show ?case
  proof cases
    case 1
    have "CodeReplica.timestamp b \<le> CodeReplica.timestamp ?b'" by simp
    also have "\<dots> \<le> CodeReplica.timestamp (max_by_timestamp ?b' rs)"
      by (rule max_by_timestamp_ge_best)
    finally show ?thesis using 1 by simp
  next
    case 2
    have "CodeReplica.timestamp r \<le> CodeReplica.timestamp ?b'" by simp
    also have "\<dots> \<le> CodeReplica.timestamp (max_by_timestamp ?b' rs)"
      by (rule max_by_timestamp_ge_best)
    finally show ?thesis using 2 by simp
  next
    case 3
    then have "x \<in> set (?b' # rs)" by simp
    from Cons.IH [OF this] show ?thesis by simp
  qed
qed

lemma sync_loop_elems:
  "x \<in> set (sync_loop src c h tick k reps) \<Longrightarrow>
     CodeReplica.hash (snd x) = h \<or> (x \<in> set reps \<and> fst x = src)"
  by (induction reps arbitrary: k) (auto split: if_splits)

lemma sync_loop_has_target:
  "p \<in> set reps \<Longrightarrow> fst p \<noteq> src \<Longrightarrow>
     \<exists>x j. x \<in> set (sync_loop src c h tick k reps) \<and> CodeReplica.timestamp (snd x) = tick j"
proof (induction reps arbitrary: k)
  case Nil
  then show ?case by simp
next
  case (Cons q reps)
  show ?case
  proof (cases "fst q \<noteq> src")
    case True
    let ?x = "(fst q, (snd q)\<lparr>content := c, hash := h, CodeReplica.timestamp := tick k,
                            version := CodeReplica.version (snd q) + 1\<rparr>)"
    from True have "?x \<in> set (sync_loop src c h tick k (q # reps))" by simp
    moreover have "CodeReplica.timestamp (snd ?x) = tick k" by simp
    ultimately show ?thesis by blast
  next
    case False
    with Cons.prems have "p \<in> set reps" by auto
    from Cons.IH [OF this Cons.prems(2), of k]
    obtain x j where "x \<in> set (sync_loop src c h tick k reps)"
      "CodeReplica.timestamp (snd x) = tick j" by blast
    moreover from this(1) False have "x \<in> set (sync_loop src c h tick k (q # reps))" by simp
    ultimately show ?thesis by blast
  qed
qed

lemma sync_loop_primary_hash:
  assumes some: "p \<in> set reps" "fst p \<noteq> src"
    and clock: "\<forall>q\<in>set reps. fst q = src \<longrightarrow> (\<forall>j. CodeReplica.timestamp (snd q) < tick j)"
  shows "\<exists>r. get_primary_replica (md\<lparr>replicas := sync_loop src c h tick 0 reps\<rparr>) = Some r
             \<and> CodeReplica.hash r = h"
proof -
  let ?new = "sync_loop src c h tick 0 reps"
  from sync_loop_has_target [OF some, of c h tick 0]
  obtain x j where x: "x \<in> set ?new" "CodeReplica.timestamp (snd x) = tick j" by blast
  then obtain b rs where br: "map snd ?new = b # rs" by (cases ?new) auto
  let ?m = "max_by_timestamp b rs"
  have prim: "get_primary_replica (md\<lparr>replicas := ?new\<rparr>) = Some ?m"
    by (simp add: get_primary_replica_def br)
  have "?m \<in> set (map snd ?new)" unfolding br by (rule max_by_timestamp_mem)
  then obtain y where y: "y \<in> set ?new" "snd y = ?m" by auto
  from x(1) have "snd x \<in> set (b # rs)" unfolding br [symmetric] by simp
  from max_by_timestamp_ge [OF this] x(2)
  have late: "tick j \<le> CodeReplica.timestamp ?m" by simp
  from sync_loop_elems [OF y(1)] have "CodeReplica.hash ?m = h"
  proof
    assume "CodeReplica.hash (snd y) = h"
    with y(2) show ?thesis by simp
  next
    assume "y \<in> set reps \<and> fst y = src"
    with clock have "CodeReplica.timestamp (snd y) < tick j" by blast
    with late y(2) show ?thesis by simp
  qed
  with prim show ?thesis by blast
qed

lemma sync_file_known_events:
  assumes "map_of (files s) f = Some md"
  shows "sync_events (snd (sync_file digest tick uuid f c src s)) = sync_events s @
     [\<lparr>event_id = uuid, SyncEvent.file_id = f, source_node = src,
       target_nodes = filter (\<lambda>n. n \<noteq> src) (map fst (replicas md)),
       SyncEvent.timestamp = tick (length (filter (\<lambda>n. n \<noteq> src) (map fst (replicas md)))),
       new_hash = digest c,
       old_hash = (case get_primary_replica
                          (md\<lparr>replicas := sync_loop src c (digest c) tick 0 (replicas md)\<rparr>) of
                     Some p \<Rightarrow> Some (CodeReplica.hash p) | None \<Rightarrow> None),
       success = True, SyncEvent.latency_ms = 0\<rparr>]"
  using assms unfolding sync_file_def Let_def by simp

lemma sync_file_known_success:
  "map_of (files s) f = Some md \<Longrightarrow> fst (sync_file digest tick uuid f c src s) = True"
  unfolding sync_file_def Let_def by simp

theorem sync_event_old_hash_counterexample:
  "map event_hashes (events_after test_network sha256_16_known sync_clock_tie)
     = [(Some ''8ff436def1451285'', ''1431b986377b5430'')]
   \<and> map event_hashes (events_after test_network sha256_16_known sync_clock_back)
     = [(Some ''8ff436def1451285'', ''1431b986377b5430'')]"
  by (simp add: events_after_def event_hashes_def sync_clock_tie_def sync_clock_back_def
      test_network_nodes register_file_def replicate_file_def sync_file_def Let_def
      get_primary_replica_def CodeReplica_post_init_def sha256_16_known_def
      CodeReplicationManager_init_def)

text \<open>
  Claim C9, amended. Take a registered file with a replica on some node other than \<open>src\<close>,
  and let every clock reading of the call be later than the timestamp stored in the source
  node's own replica, if it has one. Then \<open>sync_file\<close> succeeds and appends one event
  whose \<open>old_hash\<close> is its \<open>new_hash\<close>, the digest of the new content: the hash before
  the sync is not recorded. (When the clock stands still or is set back, the source's stale
  replica can remain the most recent one and the event then records its hash.)
\<close>

theorem sync_event_old_hash_is_new_hash:
  assumes "map_of (files s) fid = Some md"
    and "list_ex (\<lambda>p. fst p \<noteq> src) (replicas md)"
    and "\<forall>q\<in>set (replicas md). fst q = src \<longrightarrow> (\<forall>j. CodeReplica.timestamp (snd q) < tick j)"
  shows "\<exists>s' ev. sync_file digest tick uuid fid c src s = (True, s')
           \<and> sync_events s' = sync_events s @ [ev]
           \<and> new_hash ev = digest c
           \<and> old_hash ev = Some (new_hash ev)"
proof -
  from assms(2) obtain p where p: "p \<in> set (replicas md)" "fst p \<noteq> src"
    by (auto simp: list_ex_iff)
  from sync_loop_primary_hash [OF p assms(3), where md = md and c = c and h = "digest c"]
  obtain r where r: "get_primary_replica
      (md\<lparr>replicas := sync_loop src c (digest c) tick 0 (replicas md)\<rparr>) = Some r"
    "CodeReplica.hash r = digest c" by blast
  let ?res = "sync_file digest tick uuid fid c src s"
  let ?ev = "last (sync_events (snd ?res))"
  have ok: "?res = (True, snd ?res)"
    using sync_file_known_success [OF assms(1), of digest tick uuid c src]
    by (cases ?res) simp
  note ev = sync_file_known_events [OF assms(1), of digest tick uuid c src]
  have e1: "sync_events (snd ?res) = sync_events s @ [?ev]" unfolding ev by simp
  have e2: "new_hash ?ev = digest c" unfolding ev by simp
  have e3: "old_hash ?ev = Some (digest c)" unfolding ev using r by simp
  from ok e1 e2 e3 show ?thesis by metis
qed

theorem sync_event_old_hash_is_new_hash_witness:
  "map_of (files diverged_manager) ''file_001'' = Some diverged_file
   \<and> list_ex (\<lambda>p. fst p \<noteq> ''local_1'') (replicas diverged_file)
   \<and> list_all (\<lambda>q. CodeReplica.timestamp (snd q) < 20) (replicas diverged_file)
   \<and> (\<exists>s' ev. sync_file sha256_16_known (\<lambda>k. 20 + int k) ''e1'' ''file_001'' ''x = 2'' ''local_1''
                  diverged_manager = (True, s')
           \<and> sync_events s' = sync_events diverged_manager @ [ev]
           \<and> new_hash ev = sha256_16_known ''x = 2''
           \<and> old_hash ev = Some (new_hash ev))"
proof -
  have h1: "map_of (files diverged_manager) ''file_001'' = Some diverged_file"
    by (simp add: diverged_manager_def)
  have h2: "list_ex (\<lambda>p. fst p \<noteq> ''local_1'') (replicas diverged_file)"
    by (simp add: diverged_file_def)
  have h3': "list_all (\<lambda>q. CodeReplica.timestamp (snd q) < 20) (replicas diverged_file)"
    by (simp add: diverged_file_def diverged_replica_def)
  then have h3: "\<forall>q\<in>set (replicas diverged_file). fst q = ''local_1'' \<longrightarrow>
      (\<forall>j. CodeReplica.timestamp (snd q) < (\<lambda>k. 20 + int k) j)"
    by (auto simp: list_all_iff)
  from sync_event_old_hash_is_new_hash [OF h1 h2 h3, of sha256_16_known "''e1''" "''x = 2''"]
    h1 h2 h3' show ?thesis by blast
qed

section \<open>Guardians of unregistered files (C10)\<close>

lemma create_guardian_result:
  "create_guardian uuid8 fid nid rl g =
     (\<lparr>agent_id = ''guardian_'' @ fid @ ''_'' @ uuid8, GuardianAgent.file_id = fid, role = rl,
       GuardianAgent.node_id = nid, GuardianAgent.status = ''active'',
       metrics = [], state = [], watchers = [], last_action = None\<rparr>,
      snd (create_guardian uuid8 fid nid rl g))"
  by (simp add: create_guardian_def Let_def)

lemma create_guardian_agents:
  "map_of (GuardianAgentSystem.agents (snd (create_guardian uuid8 fid nid rl g)))
      (agent_id (fst (create_guardian uuid8 fid nid rl g)))
     = Some (fst (create_guardian uuid8 fid nid rl g))"
  by (simp add: create_guardian_def Let_def map_of_update_same)

lemma create_guardian_first:
  "map_of (file_guardians g) fid = None \<Longrightarrow>
     map_of (file_guardians (snd (create_guardian uuid8 fid nid rl g))) fid
       = Some (agent_id (fst (create_guardian uuid8 fid nid rl g)))"
  by (simp add: create_guardian_def Let_def map_of_update_same)

lemma create_guardian_later:
  "map_of (file_guardians g) fid = Some gid \<Longrightarrow>
     map_of (file_guardians (snd (create_guardian uuid8 fid nid rl g))) fid = Some gid"
  by (simp add: create_guardian_def Let_def)

lemma monitor_file_unregistered:
  assumes "map_of (file_guardians g) fid = Some gid" and "map_of (files rep) fid = None"
  shows "monitor_file fid g rep =
     Inl (KeyError (if map_of (GuardianAgentSystem.agents g) gid = None then gid else fid))"
  using assms by (auto simp: monitor_file_def)

text \<open>
  Claim C10. \<open>create_guardian\<close> takes no replication manager and has no failing branch:
  for any file id it returns an agent for that file and registers it. If the file had no
  guardian yet, the new agent becomes its primary guardian. If the file is not
  registered with the replication manager, the next \<open>monitor_file\<close> for it raises a
  \<^verbatim>\<open>KeyError\<close>; after a first guardian, the missing key is the file id.
\<close>

theorem guardian_of_unregistered_file:
  "(\<exists>agent g'. create_guardian uuid8 fid nid rl g = (agent, g')
       \<and> GuardianAgent.file_id agent = fid
       \<and> map_of (GuardianAgentSystem.agents g') (agent_id agent) = Some agent
       \<and> (map_of (file_guardians g) fid = None \<longrightarrow>
            map_of (file_guardians g') fid = Some (agent_id agent))
       \<and> (map_of (files rep) fid = None \<longrightarrow> (\<exists>k. monitor_file fid g' rep = Inl (KeyError k)))
       \<and> (map_of (files rep) fid = None \<longrightarrow> map_of (file_guardians g) fid = None \<longrightarrow>
            monitor_file fid g' rep = Inl (KeyError fid)))"
proof -
  let ?res = "create_guardian uuid8 fid nid rl g"
  let ?agent = "fst ?res" and ?g' = "snd ?res"
  have r: "?res = (?agent, ?g')" by simp
  have a1: "GuardianAgent.file_id ?agent = fid"
    by (subst create_guardian_result) simp
  have a2: "map_of (GuardianAgentSystem.agents ?g') (agent_id ?agent) = Some ?agent"
    by (rule create_guardian_agents)
  have a3: "map_of (file_guardians g) fid = None \<longrightarrow>
      map_of (file_guardians ?g') fid = Some (agent_id ?agent)"
    by (simp add: create_guardian_first)
  have a4: "map_of (files rep) fid = None \<longrightarrow> (\<exists>k. monitor_file fid ?g' rep = Inl (KeyError k))"
  proof
    assume unreg: "map_of (files rep) fid = None"
    obtain gid where "map_of (file_guardians ?g') fid = Some gid"
      using create_guardian_first [of g fid uuid8 nid rl] create_guardian_later [of g fid _ uuid8 nid rl]
      by (cases "map_of (file_guardians g) fid") auto
    from monitor_file_unregistered [OF this unreg]
    show "\<exists>k. monitor_file fid ?g' rep = Inl (KeyError k)" by blast
  qed
  have a5: "map_of (files rep) fid = None \<longrightarrow> map_of (file_guardians g) fid = None \<longrightarrow>
      monitor_file fid ?g' rep = Inl (KeyError fid)"
  proof (intro impI)
    assume unreg: "map_of (files rep) fid = None" and first: "map_of (file_guardians g) fid = None"
    from create_guardian_first [OF first, of uuid8 nid rl]
    have fg: "map_of (file_guardians ?g') fid = Some (agent_id ?agent)" .
    from monitor_file_unregistered [OF fg unreg] a2
    show "monitor_file fid ?g' rep = Inl (KeyError fid)" by simp
  qed
  show ?thesis
    by (rule exI [of _ ?agent], rule exI [of _ ?g']) (intro conjI r a1 a2 a3 a4 a5)
qed

theorem guardian_of_unregistered_file_witness:
  "map_of (files CodeReplicationManager_init) ''file_001'' = None
   \<and> map_of (file_guardians GuardianAgentSystem_init) ''file_001'' = None
   \<and> (\<exists>agent g'. create_guardian ''1a2b3c4d'' ''file_001'' ''local_1'' GUARDIAN
                      GuardianAgentSystem_init = (agent, g')
       \<and> map_of (file_guardians g') ''file_001'' = Some (agent_id agent)
       \<and> monitor_file ''file_001'' g' CodeReplicationManager_init = Inl (KeyError ''file_001''))"
proof -
  have h1: "map_of (files CodeReplicationManager_init) ''file_001'' = None"
    by (simp add: CodeReplicationManager_init_def)
  have h2: "map_of (file_guardians GuardianAgentSystem_init) ''file_001'' = None"
    by (simp add: GuardianAgentSystem_init_def)
  from guardian_of_unregistered_file [of "''1a2b3c4d''" "''file_001''" "''local_1''" GUARDIAN
      GuardianAgentSystem_init CodeReplicationManager_init] h1 h2
  show ?thesis by blast
qed

end
